theory Spec2Isabelle
  imports Main
begin

section \<open>The singleton \<open>TestClass2\<close> (main.cpp, lines 185-211)\<close>

text \<open>
  \<open>TestClass2::GetInstance\<close> declares three block-scope statics, in this order:
  \<^verbatim>\<open>
  static TestClass2 & GetInstance() {
      static boost::mutex mutex;
      static boost::lock_guard < boost::mutex > guard(mutex);
      static TestClass2 instance;
      return instance;
  }
  \<close>
  A block-scope static is initialised the first time control passes through its
  declaration and is skipped afterwards; when its initialisation exits by an exception it
  counts as not initialised and is tried again at the next pass. The statics that were
  initialised are destroyed, in reverse order, when the process exits.

  The state of the three statics is the \<open>world\<close> below. A static that was initialised
  stays so: its destruction at exit is recorded apart (\<open>mutex_destroyed\<close>,
  \<open>guard_destroyed\<close>, the phase \<open>Destroyed\<close> of the instance), and a call made after it
  skips the declaration all the same. \<open>cout\<close> holds the lines written to standard output
  (without their newline), \<open>ctor_calls\<close> and \<open>dtor_calls\<close> count the runs of
  \<open>TestClass2()\<close> and \<open>~TestClass2()\<close>.
\<close>

datatype phase = Uninitialized | Constructing | Ready | Destroyed

datatype error = ConstructionFailure | RecursiveInit | Deadlock

text \<open>
  The function returns \<open>instance\<close> by reference. A reference is named by the ordinal of
  the constructor run that built the object it denotes: two references are equal exactly
  when they denote the same constructed object.
\<close>

datatype ref = Ref nat

record world =
  mutex_constructed :: bool
  guard_constructed :: bool
  mutex_locked :: bool
  mutex_destroyed :: bool
  guard_destroyed :: bool
  "instance" :: phase
  ctor_calls :: nat
  dtor_calls :: nat
  cout :: "string list"

definition init_world :: world where
  "init_world =
     \<lparr>mutex_constructed = False, guard_constructed = False, mutex_locked = False,
      mutex_destroyed = False, guard_destroyed = False,
      instance = Uninitialized, ctor_calls = 0, dtor_calls = 0, cout = []\<rparr>"

text \<open>
  The body of a constructor: it is given the ordinal of its run and the output stream,
  and either completes or fails. \<open>TestClass2_ctor\<close> is the body in the source (lines
  203-205), which only prints and has no failing path.
\<close>

type_synonym ctor = "nat \<Rightarrow> string list \<Rightarrow> (error + unit) \<times> string list"

definition TestClass2_ctor :: ctor where
  "TestClass2_ctor k out = (Inr (), out @ [''Constructor called for singleton!''])"

text \<open>Line 192: \<open>static boost::mutex mutex;\<close>\<close>

definition decl_mutex :: "world \<Rightarrow> world" where
  "decl_mutex w =
     (if mutex_constructed w then w
      else w\<lparr>mutex_constructed := True, mutex_locked := False\<rparr>)"

text \<open>
  Line 195: \<open>static boost::lock_guard<boost::mutex> guard(mutex);\<close> The constructor of the
  guard locks the mutex. \<open>boost::mutex\<close> is not recursive: locking it while it is locked
  never returns, which is the outcome \<open>Deadlock\<close>.
\<close>

definition decl_guard :: "world \<Rightarrow> error + world" where
  "decl_guard w =
     (if guard_constructed w then Inr w
      else if mutex_locked w then Inl Deadlock
      else Inr (w\<lparr>guard_constructed := True, mutex_locked := True\<rparr>))"

text \<open>
  Line 198: \<open>static TestClass2 instance;\<close> in three steps: the initialisation begins, the
  constructor body runs, the initialisation ends (completed, or abandoned on a failure).
\<close>

definition begin_init :: "world \<Rightarrow> world" where
  "begin_init w = w\<lparr>instance := Constructing\<rparr>"

definition run_ctor :: "ctor \<Rightarrow> world \<Rightarrow> (error + unit) \<times> world" where
  "run_ctor c w =
     (let k = Suc (ctor_calls w); (r, out) = c k (cout w)
      in (r, w\<lparr>ctor_calls := k, cout := out\<rparr>))"

definition end_init :: "(error + unit) \<Rightarrow> world \<Rightarrow> world" where
  "end_init r w =
     (case r of Inl e \<Rightarrow> w\<lparr>instance := Uninitialized\<rparr>
              | Inr u \<Rightarrow> w\<lparr>instance := Ready\<rparr>)"

definition decl_instance :: "ctor \<Rightarrow> world \<Rightarrow> (error + unit) \<times> world" where
  "decl_instance c w =
     (case instance w of
        Uninitialized \<Rightarrow>
          (let (r, w') = run_ctor c (begin_init w) in (r, end_init r w'))
      | Constructing \<Rightarrow> (Inl RecursiveInit, w)
      | Ready \<Rightarrow> (Inr (), w)
      | Destroyed \<Rightarrow> (Inr (), w))"

text \<open>
  \<open>GetInstance\<close> over any constructor body, and the function of the source. The result is
  the reference returned or the exception that leaves the call, with the world after it.
\<close>

definition GetInstance_with :: "ctor \<Rightarrow> world \<Rightarrow> (error + ref) \<times> world" where
  "GetInstance_with c w =
     (let w1 = decl_mutex w in
      case decl_guard w1 of
        Inl e \<Rightarrow> (Inl e, w1)
      | Inr w2 \<Rightarrow>
          (case decl_instance c w2 of
             (Inl e, w3) \<Rightarrow> (Inl e, w3)
           | (Inr u, w3) \<Rightarrow> (Inr (Ref (ctor_calls w3)), w3)))"

definition GetInstance :: "world \<Rightarrow> (error + ref) \<times> world" where
  "GetInstance = GetInstance_with TestClass2_ctor"

text \<open>
  The worlds a call passes through, one after each step of the three declarations. The
  last of them is the world the call leaves.
\<close>

definition GetInstance_trace :: "ctor \<Rightarrow> world \<Rightarrow> world list" where
  "GetInstance_trace c w =
     (let w1 = decl_mutex w in
      case decl_guard w1 of
        Inl e \<Rightarrow> [w1]
      | Inr w2 \<Rightarrow>
          [w1, w2] @
          (if instance w2 = Uninitialized
           then (let w3 = begin_init w2; (r, w4) = run_ctor c w3 in [w3, w4, end_init r w4])
           else []))"

text \<open>
  Lines 187-189, the destructor, and the destruction of the statics at process exit, in
  the reverse order of their construction: \<open>instance\<close>, then \<open>guard\<close> (whose destructor
  unlocks the mutex), then \<open>mutex\<close>.
\<close>

definition TestClass2_dtor :: "world \<Rightarrow> world" where
  "TestClass2_dtor w =
     w\<lparr>instance := Destroyed, dtor_calls := Suc (dtor_calls w),
       cout := cout w @ [''Destructor called for singleton!'']\<rparr>"

definition destroy_instance :: "world \<Rightarrow> world" where
  "destroy_instance w = (if instance w = Ready then TestClass2_dtor w else w)"

definition destroy_guard :: "world \<Rightarrow> world" where
  "destroy_guard w =
     (if guard_constructed w \<and> \<not> guard_destroyed w
      then w\<lparr>guard_destroyed := True, mutex_locked := False\<rparr>
      else w)"

definition destroy_mutex :: "world \<Rightarrow> world" where
  "destroy_mutex w =
     (if mutex_constructed w \<and> \<not> mutex_destroyed w then w\<lparr>mutex_destroyed := True\<rparr>
      else w)"

definition static_destruction :: "world \<Rightarrow> world" where
  "static_destruction w = destroy_mutex (destroy_guard (destroy_instance w))"

definition static_destruction_trace :: "world \<Rightarrow> world list" where
  "static_destruction_trace w =
     [destroy_instance w, destroy_guard (destroy_instance w),
      destroy_mutex (destroy_guard (destroy_instance w))]"

text \<open>\<open>n\<close> calls made one after the other, with the result of each.\<close>

fun calls :: "nat \<Rightarrow> world \<Rightarrow> (error + ref) list \<times> world" where
  "calls 0 w = ([], w)"
| "calls (Suc n) w =
     (let (r, w') = GetInstance w; (rs, w'') = calls n w' in (r # rs, w''))"

text \<open>
  What holds of the statics between two calls: the guard is built after the mutex and
  holds its lock from its construction to its destruction, a ready instance was built
  after the guard, and no initialisation is under way.
\<close>

definition registry_inv :: "world \<Rightarrow> bool" where
  "registry_inv w =
     ((guard_constructed w \<longrightarrow> mutex_constructed w) \<and>
      mutex_locked w = (guard_constructed w \<and> \<not> guard_destroyed w) \<and>
      (guard_destroyed w \<longrightarrow> guard_constructed w) \<and>
      (instance w = Ready \<longrightarrow> guard_constructed w) \<and>
      instance w \<noteq> Constructing)"

text \<open>The world that the first call leaves.\<close>

definition first_world :: world where
  "first_world =
     \<lparr>mutex_constructed = True, guard_constructed = True, mutex_locked = True,
      mutex_destroyed = False, guard_destroyed = False,
      instance = Ready, ctor_calls = 1, dtor_calls = 0,
      cout = [''Constructor called for singleton!'']\<rparr>"

section \<open>The two threads of \<open>multithreading_test\<close> (main.cpp, lines 216-272)\<close>

text \<open>
  \<^verbatim>\<open>
  void thread_main_1()                       void multithreading_test()
  {                                          {
      while (1) {                                boost::thread thread1(thread_main_1);
          cout << "Thread 1 - main body\n";      thread1.detach();
          sleep(5);                              cout << "\nMultithreading example: \n";
          TestClass2 & instance =                int count = 1;
              TestClass2::GetInstance();         while (count <= 5) {
      }                                              cout << "Main Thread - main body\n";
      return;                                        sleep(5);
  }                                                  TestClass2 & instance =
                                                         TestClass2::GetInstance();
                                                     count++;
                                                 }
                                                 return;
                                             }
  \<close>
  The program counters are the line numbers of the source. A step of a thread runs one
  statement as a whole, a call of \<open>GetInstance\<close> included; a schedule is the list of the
  threads that step, in order. Calls do not overlap in this model; calls that overlap,
  run statement by statement, are the subject of the next section. Time is not
  modelled: \<open>sleep(5)\<close> only moves the program
  counter. The reference variable \<open>instance\<close> of a loop body is bound by the call and
  leaves its scope at the end of the body (line 222 for the worker, line 254, after
  \<open>count++\<close>, for the main thread). When \<open>main\<close> returns (line 271) the process exits: the
  statics are destroyed and no thread steps any more; the steps of the main thread are
  those of \<open>multithreading_test\<close>, followed by this return. An exception that leaves
  \<open>GetInstance\<close> is caught nowhere and aborts the process; a thread whose call
  deadlocks stays where it is.
\<close>

datatype tid = MainThread | WorkerThread

datatype main_pc =
  M242 | M243 | M245 | M247 | M249 | M250 | M251 | M252 | M253 | M256 | M271 | MainDone

datatype worker_pc = NotStarted | W218 | W219 | W220 | W221 | W222

datatype proc = Running | Exited | Aborted

record prog =
  shared :: world
  proc :: proc
  main_pc :: main_pc
  count :: int
  main_instance :: "ref option"
  worker_pc :: worker_pc
  worker_instance :: "ref option"

definition init_prog :: prog where
  "init_prog =
     \<lparr>shared = init_world, proc = Running, main_pc = M242, count = 0,
      main_instance = None, worker_pc = NotStarted, worker_instance = None\<rparr>"

definition print :: "string list \<Rightarrow> prog \<Rightarrow> prog" where
  "print ls p = p\<lparr>shared := (shared p)\<lparr>cout := cout (shared p) @ ls\<rparr>\<rparr>"

definition multithreading_test_step :: "prog \<Rightarrow> prog" where
  "multithreading_test_step p =
     (case main_pc p of
        M242 \<Rightarrow> p\<lparr>main_pc := M243, worker_pc := W218\<rparr>
      | M243 \<Rightarrow> p\<lparr>main_pc := M245\<rparr>
      | M245 \<Rightarrow> (print ['''', ''Multithreading example: ''] p)\<lparr>main_pc := M247\<rparr>
      | M247 \<Rightarrow> p\<lparr>main_pc := M249, count := 1\<rparr>
      | M249 \<Rightarrow> (if count p \<le> 5 then p\<lparr>main_pc := M250\<rparr> else p\<lparr>main_pc := M256\<rparr>)
      | M250 \<Rightarrow> (print [''Main Thread - main body''] p)\<lparr>main_pc := M251\<rparr>
      | M251 \<Rightarrow> p\<lparr>main_pc := M252\<rparr>
      | M252 \<Rightarrow>
          (case GetInstance (shared p) of
             (Inl e, w) \<Rightarrow>
               (if e = Deadlock then p\<lparr>shared := w\<rparr> else p\<lparr>shared := w, proc := Aborted\<rparr>)
           | (Inr r, w) \<Rightarrow> p\<lparr>shared := w, main_pc := M253, main_instance := Some r\<rparr>)
      | M253 \<Rightarrow> p\<lparr>main_pc := M249, count := count p + 1, main_instance := None\<rparr>
      | M256 \<Rightarrow> p\<lparr>main_pc := M271\<rparr>
      | M271 \<Rightarrow> p\<lparr>shared := static_destruction (shared p), proc := Exited, main_pc := MainDone\<rparr>
      | MainDone \<Rightarrow> p)"

definition thread_main_1_step :: "prog \<Rightarrow> prog" where
  "thread_main_1_step p =
     (case worker_pc p of
        NotStarted \<Rightarrow> p
      | W218 \<Rightarrow> p\<lparr>worker_pc := W219\<rparr>
      | W219 \<Rightarrow> (print [''Thread 1 - main body''] p)\<lparr>worker_pc := W220\<rparr>
      | W220 \<Rightarrow> p\<lparr>worker_pc := W221\<rparr>
      | W221 \<Rightarrow>
          (case GetInstance (shared p) of
             (Inl e, w) \<Rightarrow>
               (if e = Deadlock then p\<lparr>shared := w\<rparr> else p\<lparr>shared := w, proc := Aborted\<rparr>)
           | (Inr r, w) \<Rightarrow> p\<lparr>shared := w, worker_pc := W222, worker_instance := Some r\<rparr>)
      | W222 \<Rightarrow> p\<lparr>worker_pc := W218, worker_instance := None\<rparr>)"

definition step :: "tid \<Rightarrow> prog \<Rightarrow> prog" where
  "step t p =
     (if proc p = Running
      then (case t of MainThread \<Rightarrow> multithreading_test_step p | WorkerThread \<Rightarrow> thread_main_1_step p)
      else p)"

fun run :: "tid list \<Rightarrow> prog \<Rightarrow> prog" where
  "run [] p = p"
| "run (t # ts) p = run ts (step t p)"

text \<open>
  The worlds a step passes through: those of the call for a step that calls
  \<open>GetInstance\<close>, those of the destruction of the statics for the exit, the world after
  the step otherwise.
\<close>

definition calling :: "tid \<Rightarrow> prog \<Rightarrow> bool" where
  "calling t p =
     (case t of MainThread \<Rightarrow> main_pc p = M252 | WorkerThread \<Rightarrow> worker_pc p = W221)"

definition step_worlds :: "tid \<Rightarrow> prog \<Rightarrow> world list" where
  "step_worlds t p =
     (if proc p \<noteq> Running then []
      else if calling t p then GetInstance_trace TestClass2_ctor (shared p)
      else if t = MainThread \<and> main_pc p = M271 then static_destruction_trace (shared p)
      else [shared (step t p)])"

fun run_worlds :: "tid list \<Rightarrow> prog \<Rightarrow> world list" where
  "run_worlds [] p = []"
| "run_worlds (t # ts) p = step_worlds t p @ run_worlds ts (step t p)"

text \<open>
  The lifecycle of the resource: the edges between its phases, and a sequence of phases
  in which every step either stays or follows an edge.
\<close>

definition edge :: "phase \<Rightarrow> phase \<Rightarrow> bool" where
  "edge a b =
     (a = Uninitialized \<and> b = Constructing \<or>
      a = Constructing \<and> b = Ready \<or>
      a = Ready \<and> b = Destroyed)"

fun follows :: "phase \<Rightarrow> phase list \<Rightarrow> bool" where
  "follows a [] = True"
| "follows a (b # bs) = ((a = b \<or> edge a b) \<and> follows b bs)"

text \<open>How often a sequence of phases goes from the first given phase to the second.\<close>

fun transitions :: "phase \<Rightarrow> phase \<Rightarrow> phase list \<Rightarrow> nat" where
  "transitions a b (x # y # ys) =
     (if x = a \<and> y = b then 1 else 0) + transitions a b (y # ys)"
| "transitions a b ys = 0"

text \<open>The instances that were constructed and are not destroyed yet.\<close>

definition live_instances :: "world \<Rightarrow> nat" where
  "live_instances w = ctor_calls w - dtor_calls w"

text \<open>The lines that the constructor and the destructor of the singleton have printed.\<close>

definition singleton_trace :: "world \<Rightarrow> string list" where
  "singleton_trace w =
     filter (\<lambda>l. l = ''Constructor called for singleton!'' \<or>
                  l = ''Destructor called for singleton!'') (cout w)"

text \<open>The steps of the main thread that are left before the process has exited.\<close>

fun left_at :: "main_pc \<Rightarrow> int \<Rightarrow> nat" where
  "left_at M242 c = 32"
| "left_at M243 c = 31"
| "left_at M245 c = 30"
| "left_at M247 c = 29"
| "left_at M249 c = (if c \<le> 5 then 5 * nat (6 - c) + 3 else 3)"
| "left_at M250 c = 5 * nat (6 - c) + 2"
| "left_at M251 c = 5 * nat (6 - c) + 1"
| "left_at M252 c = 5 * nat (6 - c)"
| "left_at M253 c = 5 * nat (6 - c) - 1"
| "left_at M256 c = 2"
| "left_at M271 c = 1"
| "left_at MainDone c = 0"

definition main_left :: "prog \<Rightarrow> nat" where
  "main_left p = left_at (main_pc p) (count p)"

text \<open>
  The three stages of the statics in a run of the program: before the first call, after
  it, and after the exit.
\<close>

definition fresh :: "world \<Rightarrow> bool" where
  "fresh w =
     (registry_inv w \<and> instance w = Uninitialized \<and> ctor_calls w = 0 \<and>
      dtor_calls w = 0 \<and> singleton_trace w = [])"

definition ready :: "world \<Rightarrow> bool" where
  "ready w =
     (registry_inv w \<and> instance w = Ready \<and> ctor_calls w = 1 \<and> dtor_calls w = 0 \<and>
      singleton_trace w = [''Constructor called for singleton!''])"

definition gone :: "world \<Rightarrow> bool" where
  "gone w =
     (registry_inv w \<and> instance w = Destroyed \<and> ctor_calls w = 1 \<and> dtor_calls w = 1 \<and>
      singleton_trace w =
        [''Constructor called for singleton!'', ''Destructor called for singleton!''])"

text \<open>
  The invariant of the program: the main thread has made a call once it is past line 252
  in some round of its loop, a thread holds a reference exactly between its call and the
  end of its loop body, and the worker runs only after line 242.
\<close>

definition main_called :: "prog \<Rightarrow> bool" where
  "main_called p =
     (main_pc p = M253 \<or> main_pc p = M256 \<or> main_pc p = M271 \<or>
      (main_pc p = M249 \<or> main_pc p = M250 \<or> main_pc p = M251 \<or> main_pc p = M252) \<and>
      1 < count p)"

definition in_loop :: "prog \<Rightarrow> bool" where
  "in_loop p =
     (main_pc p = M250 \<or> main_pc p = M251 \<or> main_pc p = M252 \<or> main_pc p = M253)"

definition prog_inv :: "prog \<Rightarrow> bool" where
  "prog_inv p =
     ((proc p = Running \<or> proc p = Exited) \<and>
      (proc p = Exited) = (main_pc p = MainDone) \<and>
      (if proc p = Exited then gone (shared p)
       else if main_called p \<or> worker_pc p = W222 then ready (shared p)
       else fresh (shared p) \<or> ready (shared p)) \<and>
      main_instance p = (if main_pc p = M253 then Some (Ref 1) else None) \<and>
      worker_instance p = (if worker_pc p = W222 then Some (Ref 1) else None) \<and>
      (main_pc p = M242 \<longrightarrow> worker_pc p = NotStarted) \<and>
      (main_pc p = M249 \<or> in_loop p \<longrightarrow> 1 \<le> count p \<and> count p \<le> 6) \<and>
      (in_loop p \<longrightarrow> count p \<le> 5))"

text \<open>The phases that the resource passes through under a schedule, from the start.\<close>

definition phases :: "tid list \<Rightarrow> phase list" where
  "phases sched = map instance (shared init_prog # run_worlds sched init_prog)"

text \<open>
  A constructor body that fails at its first run and completes at every later one: the
  failing constructor of the retry scenario, which the source does not have.
\<close>

definition failing_once_ctor :: ctor where
  "failing_once_ctor k out =
     (if k = 1 then (Inl ConstructionFailure, out)
      else (Inr (), out @ [''Constructor called for singleton!'']))"

text \<open>
  Three schedules. In \<open>worker_first\<close> the worker makes the first call, right after it was
  started, and does not step again before the main thread has run to the exit. In
  \<open>worker_late\<close> the main thread runs up to its return from \<open>main\<close> and the worker
  then makes its call. In \<open>both_hold\<close> both threads are past their call, in their loop
  bodies.
\<close>

definition worker_first :: "tid list" where
  "worker_first = replicate 4 MainThread @ replicate 4 WorkerThread @ replicate 28 MainThread"

definition worker_late :: "tid list" where
  "worker_late = replicate 31 MainThread @ replicate 4 WorkerThread"

definition both_hold :: "tid list" where
  "both_hold = replicate 8 MainThread @ replicate 4 WorkerThread"

section \<open>Calls of \<open>GetInstance\<close> that overlap\<close>

text \<open>
  Any number of threads, named by natural numbers, each calling \<open>GetInstance\<close> again and
  again. A thread is outside a call or at one of its statements, and a step of a thread
  runs one statement: the declaration of line 192, the declaration of line 195, the
  begin of the initialisation of line 198, the constructor body, the end of that
  initialisation, the return of line 199. The steps are those of the sequential function
  (\<open>decl_mutex\<close>, \<open>decl_guard\<close>, \<open>begin_init\<close>, \<open>run_ctor\<close>, \<open>end_init\<close>), so that calls
  of different threads overlap in every way a schedule allows.

  A thread that reaches the declaration of \<open>instance\<close> while another thread initialises it
  waits: its step changes nothing. This is the rule for block-scope statics that the
  sequential model has in its other parts (initialised once, tried again after an
  exception). A thread whose lock never returns stays where it is, and an exception
  that leaves the constructor leaves the call.

  \<open>held\<close> is the reference that the last call of a thread returned. The action \<open>Exit\<close> is
  the return from \<open>main\<close>: thread 0 is the main thread, which is outside a call when it
  returns; the statics are destroyed and nothing steps afterwards.
\<close>

datatype gpc =
  Outside | At192 | At195 | At198 | InCtor | CtorDone "error + unit" | At199 | Thrown error

record conc =
  statics :: world
  pcs :: "nat \<Rightarrow> gpc"
  held :: "nat \<Rightarrow> ref option"
  exited :: bool

definition init_conc :: conc where
  "init_conc =
     \<lparr>statics = init_world, pcs = (\<lambda>t. Outside), held = (\<lambda>t. None), exited = False\<rparr>"

definition call_step :: "nat \<Rightarrow> conc \<Rightarrow> conc" where
  "call_step t s =
     (let w = statics s in
      case pcs s t of
        Outside \<Rightarrow> s\<lparr>pcs := (pcs s)(t := At192)\<rparr>
      | At192 \<Rightarrow> s\<lparr>statics := decl_mutex w, pcs := (pcs s)(t := At195)\<rparr>
      | At195 \<Rightarrow>
          (case decl_guard w of
             Inl e \<Rightarrow> s
           | Inr w' \<Rightarrow> s\<lparr>statics := w', pcs := (pcs s)(t := At198)\<rparr>)
      | At198 \<Rightarrow>
          (case instance w of
             Uninitialized \<Rightarrow> s\<lparr>statics := begin_init w, pcs := (pcs s)(t := InCtor)\<rparr>
           | Constructing \<Rightarrow> s
           | Ready \<Rightarrow> s\<lparr>pcs := (pcs s)(t := At199)\<rparr>
           | Destroyed \<Rightarrow> s\<lparr>pcs := (pcs s)(t := At199)\<rparr>)
      | InCtor \<Rightarrow>
          (let (r, w') = run_ctor TestClass2_ctor w
           in s\<lparr>statics := w', pcs := (pcs s)(t := CtorDone r)\<rparr>)
      | CtorDone r \<Rightarrow>
          s\<lparr>statics := end_init r w,
            pcs := (pcs s)(t := (case r of Inl e \<Rightarrow> Thrown e | Inr u \<Rightarrow> At199))\<rparr>
      | At199 \<Rightarrow>
          s\<lparr>pcs := (pcs s)(t := Outside), held := (held s)(t := Some (Ref (ctor_calls w)))\<rparr>
      | Thrown e \<Rightarrow> s)"

datatype action = Step nat | Exit

definition act :: "action \<Rightarrow> conc \<Rightarrow> conc" where
  "act a s =
     (if exited s then s
      else case a of
        Step t \<Rightarrow> call_step t s
      | Exit \<Rightarrow>
          (if pcs s 0 = Outside
           then s\<lparr>statics := static_destruction (statics s), exited := True\<rparr>
           else s))"

fun crun :: "action list \<Rightarrow> conc \<Rightarrow> conc" where
  "crun [] s = s"
| "crun (a # as) s = crun as (act a s)"

definition after :: "action list \<Rightarrow> conc" where
  "after acts = crun acts init_conc"

text \<open>The worlds that an action passes through, and those of a run.\<close>

definition act_worlds :: "action \<Rightarrow> conc \<Rightarrow> world list" where
  "act_worlds a s =
     (if exited s then []
      else case a of
        Step t \<Rightarrow> [statics (call_step t s)]
      | Exit \<Rightarrow> (if pcs s 0 = Outside then static_destruction_trace (statics s) else []))"

fun crun_worlds :: "action list \<Rightarrow> conc \<Rightarrow> world list" where
  "crun_worlds [] s = []"
| "crun_worlds (a # as) s = act_worlds a s @ crun_worlds as (act a s)"

definition cphases :: "action list \<Rightarrow> phase list" where
  "cphases acts = map instance (statics init_conc # crun_worlds acts init_conc)"

text \<open>A thread is in the constructor from the begin to the end of the initialisation.\<close>

fun in_ctor :: "gpc \<Rightarrow> bool" where
  "in_ctor InCtor = True"
| "in_ctor (CtorDone r) = True"
| "in_ctor pc = False"

text \<open>
  The threads that, in a run, begin the initialisation of the instance (the step from
  \<open>Uninitialized\<close> to \<open>Constructing\<close>), and those that run the constructor body, in order.
\<close>

definition begins :: "action \<Rightarrow> conc \<Rightarrow> nat list" where
  "begins a s =
     (case a of
        Step t \<Rightarrow> (if pcs s t = At198 \<and> pcs (act a s) t = InCtor then [t] else [])
      | Exit \<Rightarrow> [])"

fun starters :: "action list \<Rightarrow> conc \<Rightarrow> nat list" where
  "starters [] s = []"
| "starters (a # as) s = begins a s @ starters as (act a s)"

definition builds :: "action \<Rightarrow> conc \<Rightarrow> nat list" where
  "builds a s =
     (case a of
        Step t \<Rightarrow> (if pcs s t = InCtor \<and> \<not> exited s then [t] else [])
      | Exit \<Rightarrow> [])"

fun builders :: "action list \<Rightarrow> conc \<Rightarrow> nat list" where
  "builders [] s = []"
| "builders (a # as) s = builds a s @ builders as (act a s)"

text \<open>
  What holds in every state of a run, by the phase of the instance. Before the
  initialisation begins no thread is past the declaration and no constructor has run.
  While thread \<open>c\<close> initialises the instance it is the one thread past the declaration,
  in the constructor body or at the end of the initialisation after a constructor run
  that did not fail. Once the instance is built the constructor has run once, the
  threads are before the declaration or at their return, and a reference that a thread
  holds is that of the one constructor run. The instance is destroyed at the exit only.
  In each phase the lock is taken only by the guard.
\<close>

fun before_ctor :: "gpc \<Rightarrow> bool" where
  "before_ctor Outside = True"
| "before_ctor At192 = True"
| "before_ctor At195 = True"
| "before_ctor At198 = True"
| "before_ctor pc = False"

fun outside_ctor :: "gpc \<Rightarrow> bool" where
  "outside_ctor InCtor = False"
| "outside_ctor (CtorDone r) = False"
| "outside_ctor (Thrown e) = False"
| "outside_ctor pc = True"

definition lock_ok :: "world \<Rightarrow> bool" where
  "lock_ok w = (guard_constructed w \<or> \<not> mutex_locked w)"

definition untouched :: "conc \<Rightarrow> bool" where
  "untouched s =
     (instance (statics s) = Uninitialized \<and> ctor_calls (statics s) = 0 \<and>
      dtor_calls (statics s) = 0 \<and>
      (\<forall>t. before_ctor (pcs s t)) \<and> (\<forall>t. held s t = None))"

definition building :: "nat \<Rightarrow> conc \<Rightarrow> bool" where
  "building c s =
     (instance (statics s) = Constructing \<and> dtor_calls (statics s) = 0 \<and>
      (pcs s c = InCtor \<and> ctor_calls (statics s) = 0 \<or>
       pcs s c = CtorDone (Inr ()) \<and> ctor_calls (statics s) = 1) \<and>
      (\<forall>t. t \<noteq> c \<longrightarrow> before_ctor (pcs s t)) \<and> (\<forall>t. held s t = None))"

definition returning :: "conc \<Rightarrow> bool" where
  "returning s =
     (ctor_calls (statics s) = 1 \<and>
      (\<forall>t. outside_ctor (pcs s t)) \<and>
      (\<forall>t. held s t = None \<or> held s t = Some (Ref 1)))"

definition built :: "conc \<Rightarrow> bool" where
  "built s =
     (instance (statics s) = Ready \<and> dtor_calls (statics s) = 0 \<and> \<not> exited s \<and>
      returning s)"

definition torn_down :: "conc \<Rightarrow> bool" where
  "torn_down s =
     (instance (statics s) = Destroyed \<and> dtor_calls (statics s) = 1 \<and> exited s \<and>
      returning s)"

definition conc_inv :: "conc \<Rightarrow> bool" where
  "conc_inv s =
     (lock_ok (statics s) \<and>
      (untouched s \<or> (\<exists>c. building c s) \<or> built s \<or> torn_down s))"

text \<open>
  A round of \<open>N\<close> threads is a sequence of steps in which each of the threads \<open>0\<close> to
  \<open>N - 1\<close> steps at least once, in any order, and no other thread does. A schedule made
  of rounds is one in which no thread is held back for ever.
\<close>

definition round_of :: "nat \<Rightarrow> action list \<Rightarrow> bool" where
  "round_of N acts = (set acts = Step ` {..<N})"

definition fair :: "nat \<Rightarrow> action list list \<Rightarrow> bool" where
  "fair N rounds = list_all (round_of N) rounds"

text \<open>
  The steps that a thread has before it until its first call has returned, and what
  \<open>k\<close> rounds have brought about for a thread: it is at the declaration of the instance
  or past it after three rounds, the initialisation has begun after four, the constructor
  body has run after five, the initialisation has ended after six, the thread is at its
  return after seven and holds the reference after eight.
\<close>

fun steps_left :: "gpc \<Rightarrow> nat" where
  "steps_left Outside = 7"
| "steps_left At192 = 6"
| "steps_left At195 = 5"
| "steps_left At198 = 4"
| "steps_left InCtor = 3"
| "steps_left (CtorDone r) = 2"
| "steps_left At199 = 1"
| "steps_left (Thrown e) = 0"

definition first_call_left :: "nat \<Rightarrow> conc \<Rightarrow> nat" where
  "first_call_left t s = (if held s t = None then steps_left (pcs s t) else 0)"

definition left_after :: "nat \<Rightarrow> nat" where
  "left_after k = (if k \<le> 3 then 7 - k else if k \<le> 6 then 4 else if k = 7 then 1 else 0)"

definition reached :: "nat \<Rightarrow> nat \<Rightarrow> conc \<Rightarrow> bool" where
  "reached k t s =
     (first_call_left t s \<le> left_after k \<and>
      (4 \<le> k \<longrightarrow> instance (statics s) \<noteq> Uninitialized) \<and>
      (5 \<le> k \<longrightarrow> pcs s t \<noteq> InCtor) \<and>
      (6 \<le> k \<longrightarrow> \<not> in_ctor (pcs s t)) \<and>
      (7 \<le> k \<longrightarrow> instance (statics s) = Ready))"

text \<open>The states of \<open>N\<close> threads that run and have not left \<open>main\<close>.\<close>

definition running :: "nat \<Rightarrow> conc \<Rightarrow> bool" where
  "running N s = (conc_inv s \<and> \<not> exited s \<and> (\<forall>u. N \<le> u \<longrightarrow> pcs s u = Outside))"

text \<open>
  Two threads whose first calls overlap: thread 1 reaches the declaration of the instance
  while thread 0 is in the constructor. And eight rounds of three threads.
\<close>

definition overlapping :: "action list" where
  "overlapping =
     [Step 0, Step 0, Step 0, Step 1, Step 1, Step 1, Step 0, Step 1, Step 0, Step 1,
      Step 0, Step 1, Step 1, Step 0, Step 1]"

definition eight_rounds :: "action list list" where
  "eight_rounds = replicate 8 [Step 2, Step 0, Step 1, Step 0]"

section \<open>The shared pointer example (main.cpp, lines 129-171)\<close>

text \<open>
  \<^verbatim>\<open>
  class TestClass1 {
    public:
      TestClass1(int value) { m_value = value; m_data = new int[100]; };
      ~TestClass1() { cout << "Destructor called!\n"; delete[]m_data; };
    private:
      int m_value;
      int *m_data;
  };
  boost::shared_ptr < TestClass1 > shared_pointer_test1()
  {
      boost::shared_ptr < TestClass1 > bptr_tc11(new TestClass1(1));
      boost::shared_ptr < TestClass1 > bptr_tc12(new TestClass1(2));
      boost::shared_ptr < TestClass1 > bptr_tc13(new TestClass1(3));
      return bptr_tc13;
  }
  \<close>
  The memory holds the live \<open>TestClass1\<close> objects and the live \<open>int[100]\<close> blocks by
  address, the use count of every object that a shared pointer manages, the addresses of
  the objects whose destructor has run, in order, and the lines written to the output.
  Deleting what is not live and using the count of an object that has none are errors.
  A shared pointer is the address of its object; copying it adds one to the use count,
  destroying it takes one away and deletes the object when the count was one ("when the
  last reference to it goes out of scope, it will call the class's destructor", lines
  150-151). Allocation takes the next free address and does not fail.
\<close>

record TestClass1 =
  m_value :: int
  m_data :: nat

datatype shared_ptr = SharedPtr nat

datatype mem_error = DoubleFree | UseAfterFree

record memory =
  next_addr :: nat
  objects :: "nat \<rightharpoonup> TestClass1"
  arrays :: "nat set"
  use_count :: "nat \<rightharpoonup> nat"
  destroyed :: "nat list"
  console :: "string list"

definition init_memory :: memory where
  "init_memory =
     \<lparr>next_addr = 0, objects = Map.empty, arrays = {}, use_count = Map.empty,
      destroyed = [], console = []\<rparr>"

text \<open>Running on when the step before has not failed.\<close>

definition seq :: "mem_error + 'a \<Rightarrow> ('a \<Rightarrow> mem_error + 'b) \<Rightarrow> mem_error + 'b" where
  "seq m f = (case m of Inl e \<Rightarrow> Inl e | Inr x \<Rightarrow> f x)"

text \<open>\<open>new TestClass1(v)\<close>: storage for the object, then the constructor of lines 131-134.\<close>

definition alloc :: "memory \<Rightarrow> nat \<times> memory" where
  "alloc h = (next_addr h, h\<lparr>next_addr := Suc (next_addr h)\<rparr>)"

definition new_TestClass1 :: "int \<Rightarrow> memory \<Rightarrow> nat \<times> memory" where
  "new_TestClass1 v h =
     (let (p, h1) = alloc h; (d, h2) = alloc h1
      in (p, h2\<lparr>objects := (objects h2)(p \<mapsto> \<lparr>m_value = v, m_data = d\<rparr>),
                arrays := insert d (arrays h2)\<rparr>))"

text \<open>\<open>delete p\<close>: the destructor of lines 135-138, then the storage is given back.\<close>

definition delete_array :: "nat \<Rightarrow> memory \<Rightarrow> mem_error + memory" where
  "delete_array d h =
     (if d \<in> arrays h then Inr (h\<lparr>arrays := arrays h - {d}\<rparr>) else Inl DoubleFree)"

definition TestClass1_dtor :: "TestClass1 \<Rightarrow> memory \<Rightarrow> mem_error + memory" where
  "TestClass1_dtor obj h =
     delete_array (m_data obj) (h\<lparr>console := console h @ [''Destructor called!'']\<rparr>)"

definition delete_TestClass1 :: "nat \<Rightarrow> memory \<Rightarrow> mem_error + memory" where
  "delete_TestClass1 p h =
     (case objects h p of
        None \<Rightarrow> Inl DoubleFree
      | Some obj \<Rightarrow>
          seq (TestClass1_dtor obj (h\<lparr>destroyed := destroyed h @ [p]\<rparr>))
            (\<lambda>h'. Inr (h'\<lparr>objects := (objects h')(p := None)\<rparr>)))"

text \<open>The constructor, the copy constructor and the destructor of a shared pointer.\<close>

definition shared_ptr_new :: "nat \<Rightarrow> memory \<Rightarrow> shared_ptr \<times> memory" where
  "shared_ptr_new p h = (SharedPtr p, h\<lparr>use_count := (use_count h)(p \<mapsto> 1)\<rparr>)"

fun shared_ptr_copy :: "shared_ptr \<Rightarrow> memory \<Rightarrow> mem_error + shared_ptr \<times> memory" where
  "shared_ptr_copy (SharedPtr p) h =
     (case use_count h p of
        None \<Rightarrow> Inl UseAfterFree
      | Some n \<Rightarrow> Inr (SharedPtr p, h\<lparr>use_count := (use_count h)(p \<mapsto> Suc n)\<rparr>))"

fun shared_ptr_dtor :: "shared_ptr \<Rightarrow> memory \<Rightarrow> mem_error + memory" where
  "shared_ptr_dtor (SharedPtr p) h =
     (case use_count h p of
        None \<Rightarrow> Inl UseAfterFree
      | Some n \<Rightarrow>
          if n \<le> 1 then delete_TestClass1 p (h\<lparr>use_count := (use_count h)(p := None)\<rparr>)
          else Inr (h\<lparr>use_count := (use_count h)(p \<mapsto> n - 1)\<rparr>))"

text \<open>
  Lines 153-159. The value returned is a copy of \<open>bptr_tc13\<close>; the three locals are then
  destroyed in the reverse order of their declaration.
\<close>

definition make_shared :: "int \<Rightarrow> memory \<Rightarrow> shared_ptr \<times> memory" where
  "make_shared v h = (let (p, h1) = new_TestClass1 v h in shared_ptr_new p h1)"

definition shared_pointer_test1 :: "memory \<Rightarrow> mem_error + shared_ptr \<times> memory" where
  "shared_pointer_test1 h =
     (let (bptr_tc11, h1) = make_shared 1 h;
          (bptr_tc12, h2) = make_shared 2 h1;
          (bptr_tc13, h3) = make_shared 3 h2
      in seq (shared_ptr_copy bptr_tc13 h3) (\<lambda>(ret, h4).
         seq (shared_ptr_dtor bptr_tc13 h4) (\<lambda>h5.
         seq (shared_ptr_dtor bptr_tc12 h5) (\<lambda>h6.
         seq (shared_ptr_dtor bptr_tc11 h6) (\<lambda>h7. Inr (ret, h7))))))"

text \<open>
  Lines 161-171. \<open>bptr\<close> is the pointer returned; it is destroyed when the function
  returns.
\<close>

definition say :: "string list \<Rightarrow> memory \<Rightarrow> memory" where
  "say ls h = h\<lparr>console := console h @ ls\<rparr>"

definition shared_pointer_test :: "memory \<Rightarrow> mem_error + memory" where
  "shared_pointer_test h =
     seq (shared_pointer_test1 (say ['''', ''Shared pointer example: ''] h)) (\<lambda>(bptr, h1).
       shared_ptr_dtor bptr
         (say [''We have a copy of the shared pointer. Therefore it will go out of '' @
               ''scope when 'shared_pointer_test' returns instead!''] h1))"

text \<open>Nothing is live at an address that the allocator has not handed out yet.\<close>

definition mem_inv :: "memory \<Rightarrow> bool" where
  "mem_inv h =
     (\<forall>a. next_addr h \<le> a \<longrightarrow>
        objects h a = None \<and> a \<notin> arrays h \<and> use_count h a = None)"

section \<open>The random number example (main.cpp, lines 36-63)\<close>

text \<open>
  \<^verbatim>\<open>
  unsigned long seed = 12411;
  boost::mt19937 rng(seed);
  boost::normal_distribution <> hundred(50, 10);
  boost::variate_generator < boost::mt19937 &,
      boost::normal_distribution <> >unhundred(rng, hundred);
  cout << "\nRandom number generation example (Normal Distribution): \n";
  int i = 0, n = 10;
  for (i = 0; i < n; i++) {
      cout << unhundred() << std::endl;
  }
  \<close>
  The generator, the distribution and the formatting of a \<open>double\<close> belong to Boost and to
  the standard library, not to the repository. They are parameters of the model: a
  seeding function, the constructor of the distribution, the function that draws one
  value from the state of the generator and of the distribution, and the function that
  prints a value. The values are of a type of their own, \<open>'v\<close>.
\<close>

record ('g, 'd, 'v) random_api =
  mt19937 :: "nat \<Rightarrow> 'g"
  normal_distribution :: "int \<Rightarrow> int \<Rightarrow> 'd"
  variate :: "'g \<Rightarrow> 'd \<Rightarrow> 'v \<times> 'g \<times> 'd"
  put :: "'v \<Rightarrow> string"

text \<open>The loop of lines 60-62, from \<open>i\<close> up to \<open>n\<close>, with the lines written so far.\<close>

function sample_loop ::
  "('g, 'd, 'v) random_api \<Rightarrow> int \<Rightarrow> int \<Rightarrow> 'g \<Rightarrow> 'd \<Rightarrow> string list \<Rightarrow> string list" where
  "sample_loop api i n g d out =
     (if i < n
      then (let (v, g', d') = variate api g d
            in sample_loop api (i + 1) n g' d' (out @ [put api v]))
      else out)"
  by pat_completeness auto
termination
  by (relation "measure (\<lambda>(api, i, n, g, d, out). nat (n - i))") auto

declare sample_loop.simps [simp del]

definition rand_from_uniform_dstrb_test ::
  "('g, 'd, 'v) random_api \<Rightarrow> string list \<Rightarrow> string list" where
  "rand_from_uniform_dstrb_test api out =
     (let seed = 12411;
          rng = mt19937 api seed;
          hundred = normal_distribution api 50 10
      in sample_loop api 0 10 rng hundred
           (out @ ['''', ''Random number generation example (Normal Distribution): '']))"

text \<open>The first \<open>k\<close> values that a generator and a distribution yield.\<close>

fun samples :: "('g, 'd, 'v) random_api \<Rightarrow> nat \<Rightarrow> 'g \<Rightarrow> 'd \<Rightarrow> 'v list" where
  "samples api 0 g d = []"
| "samples api (Suc k) g d =
     (let (v, g', d') = variate api g d in v # samples api k g' d')"

text \<open>
  A generator to run the example on: a linear congruential step for the state, the mean
  plus the state modulo the deviation for the value, two decimal digits for the output.
\<close>

definition two_digits :: "nat \<Rightarrow> string" where
  "two_digits n = [''0123456789'' ! (n div 10 mod 10), ''0123456789'' ! (n mod 10)]"

definition toy_api :: "(int, int \<times> int, int) random_api" where
  "toy_api =
     \<lparr>mt19937 = (\<lambda>seed. int seed),
      normal_distribution = (\<lambda>mean sigma. (mean, sigma)),
      variate = (\<lambda>g d. (fst d + g mod snd d, (g * 75 + 74) mod 65537, d)),
      put = (\<lambda>v. two_digits (nat v))\<rparr>"

section \<open>Calls of \<open>GetInstance\<close> one after the other\<close>

lemmas micro_defs =
  decl_mutex_def decl_guard_def decl_instance_def begin_init_def run_ctor_def end_init_def

lemma registry_inv_init: "registry_inv init_world"
  by (simp add: registry_inv_def init_world_def)

lemma GetInstance_first: "GetInstance init_world = (Inr (Ref 1), first_world)"
  by (simp add: GetInstance_def GetInstance_with_def micro_defs init_world_def
      TestClass2_ctor_def first_world_def)

lemma first_world_inv: "registry_inv first_world"
  by (simp add: registry_inv_def first_world_def)

lemma GetInstance_with_Ready:
  "registry_inv w \<Longrightarrow> instance w = Ready \<Longrightarrow>
   GetInstance_with c w = (Inr (Ref (ctor_calls w)), w)"
  by (simp add: GetInstance_with_def micro_defs registry_inv_def)

lemma registry_inv_GetInstance_with:
  "registry_inv w \<Longrightarrow> registry_inv (snd (GetInstance_with c w))"
  by (auto simp: GetInstance_with_def micro_defs registry_inv_def Let_def
      split: phase.splits prod.splits sum.splits)

lemma calls_Ready:
  "registry_inv w \<Longrightarrow> instance w = Ready \<Longrightarrow>
   calls n w = (replicate n (Inr (Ref (ctor_calls w))), w)"
  by (induction n) (simp_all add: GetInstance_def GetInstance_with_Ready)

lemma calls_init:
  "calls (Suc n) init_world = (replicate (Suc n) (Inr (Ref 1)), first_world)"
proof -
  have "calls n first_world = (replicate n (Inr (Ref (ctor_calls first_world))), first_world)"
    by (rule calls_Ready [OF first_world_inv]) (simp add: first_world_def)
  then show ?thesis by (simp add: GetInstance_first first_world_def)
qed

lemma GetInstance_with_Uninitialized:
  "registry_inv w \<Longrightarrow> instance w = Uninitialized \<Longrightarrow>
   GetInstance_with c w =
     (let k = Suc (ctor_calls w); (r, out) = c k (cout w);
          w' = w\<lparr>mutex_constructed := True, guard_constructed := True,
                 mutex_locked := \<not> guard_destroyed w, ctor_calls := k, cout := out\<rparr>
      in case r of Inl e \<Rightarrow> (Inl e, w'\<lparr>instance := Uninitialized\<rparr>)
                 | Inr u \<Rightarrow> (Inr (Ref k), w'\<lparr>instance := Ready\<rparr>))"
  by (auto simp: GetInstance_with_def micro_defs registry_inv_def Let_def
      split: phase.splits prod.splits sum.splits)

lemma GetInstance_with_Destroyed:
  "registry_inv w \<Longrightarrow> instance w = Destroyed \<Longrightarrow>
   \<exists>w'. GetInstance_with c w = (Inr (Ref (ctor_calls w)), w')"
  by (auto simp: GetInstance_with_def micro_defs registry_inv_def Let_def
      split: phase.splits prod.splits sum.splits)

lemma GetInstance_with_fails:
  assumes "registry_inv w" "fst (GetInstance_with c w) = Inl x"
  shows "instance w = Uninitialized \<and> fst (c (Suc (ctor_calls w)) (cout w)) = Inl x"
proof (cases "instance w")
  case Uninitialized
  then show ?thesis using assms
    by (auto simp: GetInstance_with_Uninitialized Let_def split: prod.splits sum.splits)
next
  case Constructing
  then show ?thesis using assms by (simp add: registry_inv_def)
next
  case Ready
  then show ?thesis using assms by (simp add: GetInstance_with_Ready)
next
  case Destroyed
  then show ?thesis using assms GetInstance_with_Destroyed [of w c] by auto
qed

lemma GetInstance_returns:
  assumes "registry_inv w"
  shows "\<exists>r. fst (GetInstance w) = Inr r"
proof (cases "fst (GetInstance w)")
  case (Inl x)
  then have "fst (TestClass2_ctor (Suc (ctor_calls w)) (cout w)) = Inl x"
    using GetInstance_with_fails [OF assms, of TestClass2_ctor x] by (simp add: GetInstance_def)
  then show ?thesis by (simp add: TestClass2_ctor_def)
next
  case (Inr r)
  then show ?thesis by blast
qed

lemma GetInstance_with_retry:
  assumes inv: "registry_inv w" and u: "instance w = Uninitialized"
    and f: "fst (c (Suc (ctor_calls w)) (cout w)) = Inl e"
  shows "(let (r1, w1) = GetInstance_with c w; (r2, w2) = GetInstance_with c w1 in
            r1 = Inl e \<and> registry_inv w1 \<and> instance w1 = Uninitialized \<and>
            ctor_calls w1 = Suc (ctor_calls w) \<and>
            ctor_calls w2 = Suc (Suc (ctor_calls w)) \<and>
            (fst (c (Suc (Suc (ctor_calls w))) (cout w1)) = Inr () \<longrightarrow>
               r2 = Inr (Ref (Suc (Suc (ctor_calls w)))) \<and> instance w2 = Ready))"
proof -
  obtain r1 w1 where g1: "GetInstance_with c w = (r1, w1)"
    by (cases "GetInstance_with c w")
  have a: "r1 = Inl e \<and> instance w1 = Uninitialized \<and> ctor_calls w1 = Suc (ctor_calls w)"
    using g1 f
    by (auto simp: GetInstance_with_Uninitialized [OF inv u] Let_def
        split: prod.splits sum.splits)
  have i1: "registry_inv w1"
    using registry_inv_GetInstance_with [OF inv, of c] g1 by simp
  obtain r2 w2 where g2: "GetInstance_with c w1 = (r2, w2)"
    by (cases "GetInstance_with c w1")
  have b: "ctor_calls w2 = Suc (ctor_calls w1)"
    using g2 a
    by (auto simp: GetInstance_with_Uninitialized [OF i1] Let_def
        split: prod.splits sum.splits)
  have c: "fst (c (Suc (ctor_calls w1)) (cout w1)) = Inr () \<longrightarrow>
           r2 = Inr (Ref (Suc (ctor_calls w1))) \<and> instance w2 = Ready"
    using g2 a
    by (auto simp: GetInstance_with_Uninitialized [OF i1] Let_def
        split: prod.splits sum.splits)
  show ?thesis using a b c i1 g1 g2 by simp
qed

lemma GetInstance_Uninitialized:
  assumes "registry_inv w" "instance w = Uninitialized"
  shows "\<exists>w'. GetInstance w = (Inr (Ref (Suc (ctor_calls w))), w') \<and> registry_inv w' \<and>
           instance w' = Ready \<and> ctor_calls w' = Suc (ctor_calls w)"
  using assms
  by (simp add: GetInstance_def GetInstance_with_Uninitialized TestClass2_ctor_def
      registry_inv_def)

text \<open>
  C2. Calls made one after the other by a single thread, from any world between two calls
  in which the instance is not built yet or is ready: every call returns the reference
  that the first of them returned, and the constructor is not run after the first of
  them, however many calls follow (the first call runs it once when the instance is not
  built yet, and not at all when it is ready).
\<close>

theorem GetInstance_idempotent:
  assumes "registry_inv w" "instance w = Uninitialized \<or> instance w = Ready"
  shows "fst (calls (Suc n) w) = replicate (Suc n) (fst (GetInstance w)) \<and>
         (\<exists>r. fst (GetInstance w) = Inr r) \<and>
         ctor_calls (snd (calls (Suc n) w)) = ctor_calls (snd (GetInstance w)) \<and>
         ctor_calls (snd (GetInstance w)) =
           (if instance w = Ready then ctor_calls w else Suc (ctor_calls w))"
proof (cases "instance w = Ready")
  case True
  have g: "GetInstance w = (Inr (Ref (ctor_calls w)), w)"
    using assms(1) True by (simp add: GetInstance_def GetInstance_with_Ready)
  have "calls (Suc n) w = (replicate (Suc n) (Inr (Ref (ctor_calls w))), w)"
    by (rule calls_Ready [OF assms(1) True])
  then show ?thesis using True by (simp only: g) simp
next
  case False
  then have u: "instance w = Uninitialized" using assms(2) by simp
  obtain w' where g: "GetInstance w = (Inr (Ref (Suc (ctor_calls w))), w')"
    and i: "registry_inv w'" and r: "instance w' = Ready"
    and k: "ctor_calls w' = Suc (ctor_calls w)"
    using GetInstance_Uninitialized [OF assms(1) u] by blast
  have "calls n w' = (replicate n (Inr (Ref (ctor_calls w'))), w')"
    by (rule calls_Ready [OF i r])
  then have "calls (Suc n) w = (replicate (Suc n) (Inr (Ref (Suc (ctor_calls w)))), w')"
    using g k by simp
  then show ?thesis using u k by (simp only: g) simp
qed

theorem GetInstance_idempotent_witness:
  "registry_inv init_world \<and> instance init_world = Uninitialized \<and>
   fst (calls 5 init_world) = replicate 5 (fst (GetInstance init_world)) \<and>
   fst (GetInstance init_world) = Inr (Ref 1) \<and>
   ctor_calls (snd (calls 5 init_world)) = 1 \<and>
   ctor_calls (snd (GetInstance init_world)) = 1"
proof -
  have i: "registry_inv init_world" by (rule registry_inv_init)
  have u: "instance init_world = Uninitialized \<or> instance init_world = Ready"
    by (simp add: init_world_def)
  have f: "fst (GetInstance init_world) = Inr (Ref 1) \<and> instance init_world = Uninitialized \<and>
           ctor_calls init_world = 0"
    by (simp only: GetInstance_first) (simp add: init_world_def)
  have n: "(5::nat) = Suc 4" by simp
  show ?thesis
    using GetInstance_idempotent [OF i u, of 4] i f by (simp only: n) simp
qed

text \<open>
  C4. Over any constructor body, and for a world between two calls in which the instance
  is not built yet: when the constructor fails, its failure is the result of the call,
  the instance is left uninitialised, and the next call runs the constructor again and
  returns the instance when that run completes. A call fails only with the failure of
  the constructor it ran, and with the constructor of the source no call fails.
\<close>

theorem GetInstance_failure_propagates:
  assumes "registry_inv w"
  shows "(instance w = Uninitialized \<and> fst (c (Suc (ctor_calls w)) (cout w)) = Inl e \<longrightarrow>
            (let (r1, w1) = GetInstance_with c w; (r2, w2) = GetInstance_with c w1 in
               r1 = Inl e \<and> registry_inv w1 \<and> instance w1 = Uninitialized \<and>
               ctor_calls w1 = Suc (ctor_calls w) \<and>
               ctor_calls w2 = Suc (Suc (ctor_calls w)) \<and>
               (fst (c (Suc (Suc (ctor_calls w))) (cout w1)) = Inr () \<longrightarrow>
                  r2 = Inr (Ref (Suc (Suc (ctor_calls w)))) \<and> instance w2 = Ready))) \<and>
         (\<forall>x. fst (GetInstance_with c w) = Inl x \<longrightarrow>
            instance w = Uninitialized \<and> fst (c (Suc (ctor_calls w)) (cout w)) = Inl x) \<and>
         (\<exists>r. fst (GetInstance w) = Inr r)"
  using GetInstance_with_retry [OF assms, of c e] GetInstance_with_fails [OF assms, of c]
    GetInstance_returns [OF assms]
  by blast

theorem GetInstance_failure_propagates_witness:
  "registry_inv init_world \<and> instance init_world = Uninitialized \<and>
   fst (failing_once_ctor (Suc (ctor_calls init_world)) (cout init_world)) =
     Inl ConstructionFailure \<and>
   fst (GetInstance_with failing_once_ctor init_world) = Inl ConstructionFailure \<and>
   instance (snd (GetInstance_with failing_once_ctor init_world)) = Uninitialized \<and>
   fst (GetInstance_with failing_once_ctor
         (snd (GetInstance_with failing_once_ctor init_world))) = Inr (Ref 2) \<and>
   (\<exists>r. fst (GetInstance init_world) = Inr r)"
proof -
  have i: "registry_inv init_world" by (rule registry_inv_init)
  have f: "fst (failing_once_ctor (Suc (ctor_calls init_world)) (cout init_world)) =
           Inl ConstructionFailure"
    by (simp add: failing_once_ctor_def init_world_def)
  have u: "instance init_world = Uninitialized" by (simp add: init_world_def)
  have g1: "GetInstance_with failing_once_ctor init_world =
      (Inl ConstructionFailure,
       init_world\<lparr>mutex_constructed := True, guard_constructed := True,
                  mutex_locked := True, ctor_calls := 1\<rparr>)"
    by (simp add: GetInstance_with_def micro_defs failing_once_ctor_def init_world_def)
  have g2: "fst (GetInstance_with failing_once_ctor
      (init_world\<lparr>mutex_constructed := True, guard_constructed := True,
                  mutex_locked := True, ctor_calls := 1\<rparr>)) = Inr (Ref 2)"
    by (simp add: GetInstance_with_def micro_defs failing_once_ctor_def init_world_def)
  show ?thesis
    using GetInstance_failure_propagates [OF i, of failing_once_ctor ConstructionFailure]
      i f u g1 g2
    by (simp add: init_world_def)
qed

text \<open>
  C7. The guard is a static: its constructor locks the mutex in the first call and its
  destructor runs at process exit. The mutex is locked when the first call returns and
  after every later call; only the destruction of the statics unlocks it.
\<close>

theorem mutex_locked_after_GetInstance:
  "mutex_locked (snd (GetInstance init_world)) \<and>
   mutex_locked (snd (calls (Suc n) init_world)) \<and>
   \<not> mutex_locked (static_destruction (snd (calls (Suc n) init_world)))"
proof -
  have c: "calls (Suc n) init_world = (replicate (Suc n) (Inr (Ref 1)), first_world)"
    by (rule calls_init)
  have w: "mutex_locked first_world \<and> \<not> mutex_locked (static_destruction first_world)"
    by (simp add: first_world_def static_destruction_def destroy_mutex_def destroy_guard_def
        destroy_instance_def TestClass2_dtor_def)
  show ?thesis unfolding c GetInstance_first using w by simp
qed

section \<open>The invariant of the two-thread program\<close>

lemma fresh_init: "fresh init_world"
  by (simp add: fresh_def init_world_def registry_inv_def singleton_trace_def)

lemmas ctl_defs = prog_inv_def main_called_def in_loop_def

lemma prog_inv_init: "prog_inv init_prog"
  by (simp add: ctl_defs init_prog_def fresh_init)

lemma GetInstance_fresh:
  assumes "fresh w"
  shows "\<exists>w'. GetInstance w = (Inr (Ref 1), w') \<and> ready w'"
  using assms
  by (simp add: fresh_def ready_def GetInstance_def GetInstance_with_Uninitialized
      TestClass2_ctor_def registry_inv_def singleton_trace_def)

lemma GetInstance_ready:
  assumes "ready w"
  shows "GetInstance w = (Inr (Ref 1), w)"
  using assms by (simp add: ready_def GetInstance_def GetInstance_with_Ready)

lemma GetInstance_prog:
  assumes "fresh w \<or> ready w"
  shows "\<exists>w'. GetInstance w = (Inr (Ref 1), w') \<and> ready w'"
  using assms GetInstance_fresh GetInstance_ready by blast

lemma static_destruction_ready: "ready w \<Longrightarrow> gone (static_destruction w)"
  by (simp add: ready_def gone_def static_destruction_def destroy_mutex_def destroy_guard_def
      destroy_instance_def TestClass2_dtor_def registry_inv_def singleton_trace_def)

lemma singleton_trace_print:
  assumes "''Constructor called for singleton!'' \<notin> set ls"
    "''Destructor called for singleton!'' \<notin> set ls"
  shows "singleton_trace (w\<lparr>cout := cout w @ ls\<rparr>) = singleton_trace w"
proof -
  have "filter (\<lambda>l. l = ''Constructor called for singleton!'' \<or>
                  l = ''Destructor called for singleton!'') ls = []"
    using assms by (auto simp: filter_empty_conv)
  then show ?thesis by (simp add: singleton_trace_def)
qed

lemma print_stage:
  assumes "''Constructor called for singleton!'' \<notin> set ls"
    "''Destructor called for singleton!'' \<notin> set ls"
  shows "fresh (w\<lparr>cout := cout w @ ls\<rparr>) = fresh w"
    and "ready (w\<lparr>cout := cout w @ ls\<rparr>) = ready w"
  by (simp_all add: fresh_def ready_def registry_inv_def singleton_trace_print [OF assms])

lemma main_call:
  assumes i: "prog_inv p" and r: "proc p = Running" and c: "main_pc p = M252"
  shows "\<exists>w'. GetInstance (shared p) = (Inr (Ref 1), w') \<and> ready w'"
proof -
  have "fresh (shared p) \<or> ready (shared p)"
    using i r c by (auto simp: ctl_defs split: if_splits)
  then show ?thesis by (rule GetInstance_prog)
qed

lemma worker_call:
  assumes i: "prog_inv p" and r: "proc p = Running" and c: "worker_pc p = W221"
  shows "\<exists>w'. GetInstance (shared p) = (Inr (Ref 1), w') \<and> ready w'"
proof -
  have "fresh (shared p) \<or> ready (shared p)"
    using i r c by (auto simp: ctl_defs split: if_splits)
  then show ?thesis by (rule GetInstance_prog)
qed

lemma prog_inv_M252:
  assumes i: "prog_inv p" and r: "proc p = Running" and c: "main_pc p = M252"
  shows "prog_inv (multithreading_test_step p)"
proof -
  obtain w' where g: "GetInstance (shared p) = (Inr (Ref 1), w')" and w': "ready w'"
    using main_call [OF i r c] by blast
  show ?thesis using i r c w' by (simp add: multithreading_test_step_def g ctl_defs)
qed

lemma prog_inv_M271:
  assumes i: "prog_inv p" and r: "proc p = Running" and c: "main_pc p = M271"
  shows "prog_inv (multithreading_test_step p)"
proof -
  have "ready (shared p)" using i r c by (simp add: ctl_defs)
  then have "gone (static_destruction (shared p))" by (rule static_destruction_ready)
  then show ?thesis using i r c by (simp add: multithreading_test_step_def ctl_defs)
qed

lemma prog_inv_M245:
  assumes i: "prog_inv p" and r: "proc p = Running" and c: "main_pc p = M245"
  shows "prog_inv (multithreading_test_step p)"
  using i r c by (simp add: multithreading_test_step_def ctl_defs print_def print_stage)

lemma prog_inv_M250:
  assumes i: "prog_inv p" and r: "proc p = Running" and c: "main_pc p = M250"
  shows "prog_inv (multithreading_test_step p)"
  using i r c by (simp add: multithreading_test_step_def ctl_defs print_def print_stage)

lemma prog_inv_M249:
  assumes i: "prog_inv p" and r: "proc p = Running" and c: "main_pc p = M249"
  shows "prog_inv (multithreading_test_step p)"
  using i r c by (auto simp: multithreading_test_step_def ctl_defs)

lemma prog_inv_M253:
  assumes i: "prog_inv p" and r: "proc p = Running" and c: "main_pc p = M253"
  shows "prog_inv (multithreading_test_step p)"
  using i r c by (auto simp: multithreading_test_step_def ctl_defs)

lemma prog_inv_M242:
  assumes i: "prog_inv p" and r: "proc p = Running" and c: "main_pc p = M242"
  shows "prog_inv (multithreading_test_step p)"
  using i r c by (simp add: multithreading_test_step_def ctl_defs)

lemma prog_inv_M243:
  assumes i: "prog_inv p" and r: "proc p = Running" and c: "main_pc p = M243"
  shows "prog_inv (multithreading_test_step p)"
  using i r c by (simp add: multithreading_test_step_def ctl_defs)

lemma prog_inv_M247:
  assumes i: "prog_inv p" and r: "proc p = Running" and c: "main_pc p = M247"
  shows "prog_inv (multithreading_test_step p)"
  using i r c by (simp add: multithreading_test_step_def ctl_defs)

lemma prog_inv_M251:
  assumes i: "prog_inv p" and r: "proc p = Running" and c: "main_pc p = M251"
  shows "prog_inv (multithreading_test_step p)"
  using i r c by (simp add: multithreading_test_step_def ctl_defs)

lemma prog_inv_M256:
  assumes i: "prog_inv p" and r: "proc p = Running" and c: "main_pc p = M256"
  shows "prog_inv (multithreading_test_step p)"
  using i r c by (simp add: multithreading_test_step_def ctl_defs)

lemma prog_inv_MainDone:
  assumes i: "prog_inv p" and r: "proc p = Running" and c: "main_pc p = MainDone"
  shows "prog_inv (multithreading_test_step p)"
  using i r c by (simp add: multithreading_test_step_def ctl_defs)

lemma prog_inv_multithreading_test_step:
  assumes "prog_inv p" "proc p = Running"
  shows "prog_inv (multithreading_test_step p)"
  using assms
  by (cases "main_pc p")
     (blast intro: prog_inv_M242 prog_inv_M243 prog_inv_M245 prog_inv_M247 prog_inv_M249
        prog_inv_M250 prog_inv_M251 prog_inv_M252 prog_inv_M253 prog_inv_M256 prog_inv_M271
        prog_inv_MainDone)+

lemma prog_inv_W221:
  assumes i: "prog_inv p" and r: "proc p = Running" and c: "worker_pc p = W221"
  shows "prog_inv (thread_main_1_step p)"
proof -
  obtain w' where g: "GetInstance (shared p) = (Inr (Ref 1), w')" and w': "ready w'"
    using worker_call [OF i r c] by blast
  show ?thesis using i r c w' by (simp add: thread_main_1_step_def g ctl_defs)
qed

lemma prog_inv_W218:
  assumes i: "prog_inv p" and r: "proc p = Running" and c: "worker_pc p = W218"
  shows "prog_inv (thread_main_1_step p)"
  using i r c by (simp add: thread_main_1_step_def ctl_defs)

lemma prog_inv_W219:
  assumes i: "prog_inv p" and r: "proc p = Running" and c: "worker_pc p = W219"
  shows "prog_inv (thread_main_1_step p)"
  using i r c by (simp add: thread_main_1_step_def ctl_defs print_def print_stage)

lemma prog_inv_W220:
  assumes i: "prog_inv p" and r: "proc p = Running" and c: "worker_pc p = W220"
  shows "prog_inv (thread_main_1_step p)"
  using i r c by (simp add: thread_main_1_step_def ctl_defs)

lemma prog_inv_W222:
  assumes i: "prog_inv p" and r: "proc p = Running" and c: "worker_pc p = W222"
  shows "prog_inv (thread_main_1_step p)"
  using i r c by (simp add: thread_main_1_step_def ctl_defs)

lemma prog_inv_thread_main_1_step:
  assumes "prog_inv p" "proc p = Running"
  shows "prog_inv (thread_main_1_step p)"
proof (cases "worker_pc p")
  case NotStarted
  then show ?thesis using assms by (simp add: thread_main_1_step_def)
qed (use assms in \<open>blast intro: prog_inv_W218 prog_inv_W219 prog_inv_W220 prog_inv_W221
      prog_inv_W222\<close>)+

lemma prog_inv_step: "prog_inv p \<Longrightarrow> prog_inv (step t p)"
  by (cases t) (simp_all add: step_def prog_inv_multithreading_test_step prog_inv_thread_main_1_step)

lemma prog_inv_run: "prog_inv p \<Longrightarrow> prog_inv (run sched p)"
  by (induction sched arbitrary: p) (simp_all add: prog_inv_step)

subsection \<open>The main thread ends the process\<close>

lemma main_left_multithreading_test_step:
  assumes i: "prog_inv p" and r: "proc p = Running"
  shows "Suc (main_left (multithreading_test_step p)) = main_left p"
proof (cases "main_pc p")
  case M252
  obtain w' where g: "GetInstance (shared p) = (Inr (Ref 1), w')"
    using main_call [OF i r M252] by blast
  have "count p \<le> 5" using i M252 by (simp add: ctl_defs)
  then show ?thesis using M252 by (simp add: multithreading_test_step_def g main_left_def)
next
  case M253
  have "1 \<le> count p \<and> count p \<le> 5" using i M253 by (simp add: ctl_defs)
  then show ?thesis using M253 by (auto simp: multithreading_test_step_def main_left_def nat_diff_distrib)
next
  case M249
  have "1 \<le> count p \<and> count p \<le> 6" using i M249 by (simp add: ctl_defs)
  then show ?thesis using M249 by (auto simp: multithreading_test_step_def main_left_def)
next
  case M250
  then show ?thesis by (simp add: multithreading_test_step_def main_left_def print_def)
next
  case M245
  then show ?thesis by (simp add: multithreading_test_step_def main_left_def print_def)
next
  case MainDone
  then show ?thesis using i r by (simp add: ctl_defs)
qed (simp_all add: multithreading_test_step_def main_left_def)

lemma thread_main_1_step_main:
  "main_pc (thread_main_1_step p) = main_pc p \<and> count (thread_main_1_step p) = count p"
  by (cases "worker_pc p")
     (simp_all add: thread_main_1_step_def print_def split: prod.splits sum.splits)

lemma main_left_thread_main_1_step: "main_left (thread_main_1_step p) = main_left p"
  using thread_main_1_step_main [of p] by (simp add: main_left_def)

lemma main_left_Exited: "prog_inv p \<Longrightarrow> proc p = Exited \<Longrightarrow> main_left p = 0"
  by (simp add: prog_inv_def main_left_def)

lemma main_left_0:
  assumes "prog_inv p" "main_left p = 0"
  shows "proc p = Exited"
proof (rule ccontr)
  assume "proc p \<noteq> Exited"
  then have "proc p = Running" using assms(1) by (simp add: prog_inv_def)
  then have "Suc (main_left (multithreading_test_step p)) = main_left p"
    using main_left_multithreading_test_step [OF assms(1)] by simp
  then show False using assms(2) by simp
qed

lemma main_left_step:
  assumes "prog_inv p"
  shows "main_left (step t p) = main_left p - (if t = MainThread then 1 else 0)"
proof (cases "proc p = Running")
  case True
  have "Suc (main_left (multithreading_test_step p)) = main_left p"
    using main_left_multithreading_test_step [OF assms True] .
  then show ?thesis
    using True main_left_thread_main_1_step [of p]
    by (cases t) (simp_all add: step_def)
next
  case False
  then have "proc p = Exited" using assms by (simp add: prog_inv_def)
  then have "main_left p = 0" using assms main_left_Exited by blast
  then show ?thesis using False by (simp add: step_def)
qed

lemma main_left_run:
  "prog_inv p \<Longrightarrow> main_left (run sched p) = main_left p - count_list sched MainThread"
proof (induction sched arbitrary: p)
  case Nil
  then show ?case by simp
next
  case (Cons t ts)
  have "main_left (run ts (step t p)) = main_left (step t p) - count_list ts MainThread"
    using Cons.IH [OF prog_inv_step [OF Cons.prems]] .
  then show ?case using main_left_step [OF Cons.prems, of t] by simp
qed

lemma run_exits:
  assumes "32 \<le> count_list sched MainThread"
  shows "proc (run sched init_prog) = Exited"
proof -
  have "main_left init_prog = 32" by (simp add: main_left_def init_prog_def)
  then have "main_left (run sched init_prog) = 0"
    using assms main_left_run [OF prog_inv_init, of sched] by simp
  then show ?thesis using main_left_0 [OF prog_inv_run [OF prog_inv_init]] by blast
qed

section \<open>A call that is not interrupted\<close>

text \<open>
  The statements of a call, run by one thread with no step of another thread between
  them, are the function \<open>GetInstance\<close>: seven steps when the instance is to be built,
  five otherwise.
\<close>

lemma call_alone:
  assumes "registry_inv (statics s)" "pcs s t = Outside" "\<not> exited s"
  shows "let n = (if instance (statics s) = Uninitialized then 7 else 5);
             s' = crun (replicate n (Step t)) s
         in statics s' = snd (GetInstance (statics s)) \<and>
            map_option Inr (held s' t) = Some (fst (GetInstance (statics s))) \<and>
            pcs s' t = Outside"
proof -
  let ?w = "statics s"
  have "\<exists>w2. decl_guard (decl_mutex ?w) = Inr w2"
    using assms(1)
    by (cases "guard_constructed ?w") (simp_all add: registry_inv_def decl_guard_def decl_mutex_def)
  then obtain w2 where g: "decl_guard (decl_mutex ?w) = Inr w2" by auto
  have i: "instance w2 = instance ?w"
    using g by (auto simp: decl_guard_def decl_mutex_def split: if_splits)
  define s1 where "s1 = call_step t s"
  have 1: "pcs s1 t = At192" "statics s1 = ?w" "\<not> exited s1"
    using assms by (simp_all add: s1_def call_step_def)
  define s2 where "s2 = call_step t s1"
  have 2: "pcs s2 t = At195" "statics s2 = decl_mutex ?w" "\<not> exited s2"
    using 1 by (simp_all add: s2_def call_step_def)
  define s3 where "s3 = call_step t s2"
  have 3: "pcs s3 t = At198" "statics s3 = w2" "\<not> exited s3"
    using 2 g by (simp_all add: s3_def call_step_def)
  show ?thesis
  proof (cases "instance ?w = Uninitialized")
    case True
    obtain r w5 where c: "run_ctor TestClass2_ctor (begin_init w2) = (r, w5)"
      by (cases "run_ctor TestClass2_ctor (begin_init w2)") simp
    then have r: "r = Inr ()" by (auto simp: run_ctor_def TestClass2_ctor_def Let_def)
    define s4 where "s4 = call_step t s3"
    have 4: "pcs s4 t = InCtor" "statics s4 = begin_init w2" "\<not> exited s4"
      using 3 i True by (simp_all add: s4_def call_step_def)
    define s5 where "s5 = call_step t s4"
    have 5: "pcs s5 t = CtorDone r" "statics s5 = w5" "\<not> exited s5"
      using 4 c by (simp_all add: s5_def call_step_def)
    define s6 where "s6 = call_step t s5"
    have 6: "pcs s6 t = At199" "statics s6 = end_init r w5" "\<not> exited s6"
      using 5 r by (simp_all add: s6_def call_step_def)
    define s7 where "s7 = call_step t s6"
    have 7: "pcs s7 t = Outside" "statics s7 = end_init r w5"
      "held s7 t = Some (Ref (ctor_calls (end_init r w5)))"
      using 6 by (simp_all add: s7_def call_step_def)
    have "replicate 7 (Step t) = [Step t, Step t, Step t, Step t, Step t, Step t, Step t]"
      by (simp add: eval_nat_numeral)
    then have e: "crun (replicate 7 (Step t)) s = s7"
      using assms(3) 1 2 3 4 5 6
      by (simp add: act_def s1_def [symmetric] s2_def [symmetric] s3_def [symmetric]
          s4_def [symmetric] s5_def [symmetric] s6_def [symmetric] s7_def [symmetric])
    have "GetInstance ?w = (Inr (Ref (ctor_calls (end_init r w5))), end_init r w5)"
      using g i True c r by (simp add: GetInstance_def GetInstance_with_def decl_instance_def)
    then show ?thesis using True e 7 by simp
  next
    case False
    define s4 where "s4 = call_step t s3"
    have 4: "pcs s4 t = At199" "statics s4 = w2" "\<not> exited s4"
      using 3 i False assms(1)
      by (cases "instance ?w"; simp add: s4_def call_step_def registry_inv_def)+
    define s5 where "s5 = call_step t s4"
    have 5: "pcs s5 t = Outside" "statics s5 = w2" "held s5 t = Some (Ref (ctor_calls w2))"
      using 4 by (simp_all add: s5_def call_step_def)
    have "replicate 5 (Step t) = [Step t, Step t, Step t, Step t, Step t]"
      by (simp add: eval_nat_numeral)
    then have e: "crun (replicate 5 (Step t)) s = s5"
      using assms(3) 1 2 3 4
      by (simp add: act_def s1_def [symmetric] s2_def [symmetric] s3_def [symmetric]
          s4_def [symmetric] s5_def [symmetric])
    have "GetInstance ?w = (Inr (Ref (ctor_calls w2)), w2)"
      using g i False assms(1)
      by (cases "instance ?w")
        (simp_all add: GetInstance_def GetInstance_with_def decl_instance_def registry_inv_def)
    then show ?thesis using False e 5 by simp
  qed
qed

section \<open>The invariant of overlapping calls\<close>

lemmas stage_defs = untouched_def building_def built_def torn_down_def returning_def

lemma conc_inv_init: "conc_inv init_conc"
  by (simp add: conc_inv_def lock_ok_def untouched_def init_conc_def init_world_def)

lemma lock_ok_call_step: "lock_ok (statics s) \<Longrightarrow> lock_ok (statics (call_step t s))"
  by (cases "pcs s t"; cases "instance (statics s)")
    (auto simp: call_step_def lock_ok_def micro_defs TestClass2_ctor_def Let_def
      split: sum.splits)

lemma untouched_call_step:
  assumes "untouched s"
  shows "untouched (call_step t s) \<or> building t (call_step t s)"
proof -
  have b: "before_ctor (pcs s t)" and i: "instance (statics s) = Uninitialized"
    using assms by (simp_all add: untouched_def)
  show ?thesis using assms b i
    by (cases "pcs s t")
      (simp_all add: call_step_def untouched_def building_def micro_defs Let_def)
qed

lemma before_outside: "before_ctor pc \<Longrightarrow> outside_ctor pc"
  by (cases pc) simp_all

lemma building_call_step:
  assumes "building c s"
  shows "building c (call_step t s) \<or> built (call_step t s) \<and> \<not> exited s \<or> exited s"
proof (cases "t = c")
  case True
  then show ?thesis using assms
    by (cases "pcs s t")
      (auto simp: call_step_def stage_defs micro_defs TestClass2_ctor_def Let_def
        before_outside)
next
  case False
  then have b: "before_ctor (pcs s t)" using assms by (simp add: building_def)
  show ?thesis using assms b False
    by (cases "pcs s t")
      (simp_all add: call_step_def building_def micro_defs Let_def)
qed

lemma returning_call_step:
  assumes "returning s" "instance (statics s) = Ready \<or> instance (statics s) = Destroyed"
  shows "returning (call_step t s) \<and>
         instance (statics (call_step t s)) = instance (statics s) \<and>
         dtor_calls (statics (call_step t s)) = dtor_calls (statics s)"
proof -
  have b: "outside_ctor (pcs s t)"
    using assms by (simp add: returning_def)
  show ?thesis using assms b
    by (cases "pcs s t")
      (auto simp: call_step_def returning_def micro_defs Let_def)
qed

lemma exited_call_step: "exited (call_step t s) = exited s"
  by (cases "pcs s t"; cases "instance (statics s)")
    (simp_all add: call_step_def Let_def split: sum.splits prod.splits)

lemma built_call_step: "built s \<Longrightarrow> built (call_step t s)"
  using returning_call_step [of s t] by (simp add: built_def exited_call_step)

lemma conc_inv_call_step:
  assumes "conc_inv s" "\<not> exited s"
  shows "conc_inv (call_step t s)"
proof -
  have l: "lock_ok (statics (call_step t s))"
    using assms lock_ok_call_step by (simp add: conc_inv_def)
  consider "untouched s" | c where "building c s" | "built s"
    using assms by (auto simp: conc_inv_def torn_down_def)
  then show ?thesis
  proof cases
    case 1
    then show ?thesis using l untouched_call_step [of s t] by (auto simp: conc_inv_def)
  next
    case 2
    then show ?thesis using l assms(2) building_call_step [of c s t]
      by (auto simp: conc_inv_def)
  next
    case 3
    then show ?thesis using l built_call_step [of s t] by (simp add: conc_inv_def)
  qed
qed

lemma static_destruction_fields:
  "instance (static_destruction w) = (if instance w = Ready then Destroyed else instance w) \<and>
   ctor_calls (static_destruction w) = ctor_calls w \<and>
   dtor_calls (static_destruction w) =
     (if instance w = Ready then Suc (dtor_calls w) else dtor_calls w) \<and>
   guard_constructed (static_destruction w) = guard_constructed w \<and>
   (mutex_locked (static_destruction w) \<longrightarrow> mutex_locked w)"
  by (simp add: static_destruction_def destroy_mutex_def destroy_guard_def
      destroy_instance_def TestClass2_dtor_def)

lemma conc_inv_act: "conc_inv s \<Longrightarrow> conc_inv (act a s)"
proof (cases a)
  case (Step t)
  assume "conc_inv s"
  then show ?thesis using Step conc_inv_call_step [of s t] by (simp add: act_def)
next
  case Exit
  assume "conc_inv s"
  then show ?thesis using Exit static_destruction_fields [of "statics s"]
    by (auto simp: act_def conc_inv_def lock_ok_def stage_defs)
qed

lemma conc_inv_crun: "conc_inv s \<Longrightarrow> conc_inv (crun acts s)"
  by (induction acts arbitrary: s) (simp_all add: conc_inv_act)

lemma conc_inv_after: "conc_inv (after acts)"
  by (simp add: after_def conc_inv_crun conc_inv_init)

lemma exited_act: "Exit \<noteq> a \<Longrightarrow> exited (act a s) = exited s"
  by (cases a) (simp_all add: act_def exited_call_step)

lemma exited_crun: "Exit \<notin> set acts \<Longrightarrow> exited (crun acts s) = exited s"
  by (induction acts arbitrary: s) (simp_all add: exited_act)

lemma exited_after: "Exit \<notin> set acts \<Longrightarrow> \<not> exited (after acts)"
  by (simp add: after_def exited_crun init_conc_def)

lemma crun_append: "crun (xs @ ys) s = crun ys (crun xs s)"
  by (induction xs arbitrary: s) simp_all

lemma after_snoc: "after (acts @ [a]) = act a (after acts)"
  by (simp add: after_def crun_append)

section \<open>One construction by one thread\<close>

lemma stage_cases [consumes 1]:
  "conc_inv s \<Longrightarrow> (untouched s \<Longrightarrow> P) \<Longrightarrow> (\<And>c. building c s \<Longrightarrow> P) \<Longrightarrow>
   (built s \<Longrightarrow> P) \<Longrightarrow> (torn_down s \<Longrightarrow> P) \<Longrightarrow> P"
  by (auto simp: conc_inv_def)

lemma before_not_in_ctor: "before_ctor pc \<Longrightarrow> \<not> in_ctor pc"
  by (cases pc) simp_all

lemma outside_not_in_ctor: "outside_ctor pc \<Longrightarrow> \<not> in_ctor pc"
  by (cases pc) simp_all

lemma building_in_ctor: "building c s \<Longrightarrow> in_ctor (pcs s t) = (t = c)"
  by (cases "t = c") (auto simp: building_def before_not_in_ctor)

lemma conc_inv_in_ctor:
  assumes "conc_inv s"
  shows "(in_ctor (pcs s t) \<and> in_ctor (pcs s u) \<longrightarrow> t = u) \<and>
         (instance (statics s) = Constructing) = (\<exists>c. in_ctor (pcs s c))"
  using assms
proof (cases rule: stage_cases)
  case 1
  then show ?thesis by (simp add: untouched_def before_not_in_ctor)
next
  case (2 c)
  then show ?thesis by (simp add: building_in_ctor) (simp add: building_def)
next
  case 3
  then show ?thesis by (simp add: built_def returning_def outside_not_in_ctor)
next
  case 4
  then show ?thesis by (simp add: torn_down_def returning_def outside_not_in_ctor)
qed

lemma before_not_Thrown: "before_ctor pc \<Longrightarrow> pc \<noteq> Thrown e"
  by (cases pc) simp_all

lemma outside_not_Thrown: "outside_ctor pc \<Longrightarrow> pc \<noteq> Thrown e"
  by (cases pc) simp_all

lemma conc_inv_no_throw:
  assumes "conc_inv s"
  shows "pcs s t \<noteq> Thrown e"
  using assms
proof (cases rule: stage_cases)
  case 1
  then show ?thesis by (simp add: untouched_def before_not_Thrown)
next
  case (2 c)
  then show ?thesis by (cases "t = c") (auto simp: building_def before_not_Thrown)
next
  case 3
  then show ?thesis by (simp add: built_def returning_def outside_not_Thrown)
next
  case 4
  then show ?thesis by (simp add: torn_down_def returning_def outside_not_Thrown)
qed

lemma conc_inv_counts:
  assumes "conc_inv s"
  shows "ctor_calls (statics s) \<le> 1 \<and>
         dtor_calls (statics s) = (if instance (statics s) = Destroyed then 1 else 0) \<and>
         (instance (statics s) = Destroyed \<longrightarrow> exited s \<and> ctor_calls (statics s) = 1) \<and>
         (instance (statics s) = Ready \<longrightarrow> \<not> exited s \<and> ctor_calls (statics s) = 1) \<and>
         (instance (statics s) = Uninitialized \<longrightarrow> ctor_calls (statics s) = 0)"
  using assms by (cases rule: stage_cases) (auto simp: stage_defs)

lemma conc_inv_held:
  assumes "conc_inv s" "held s t = Some r"
  shows "r = Ref 1 \<and> ctor_calls (statics s) = 1 \<and>
         (instance (statics s) = Ready \<and> \<not> exited s \<or>
          instance (statics s) = Destroyed \<and> exited s)"
  using assms(1)
proof (cases rule: stage_cases)
  case 1
  then show ?thesis using assms(2) by (simp add: untouched_def)
next
  case (2 c)
  then show ?thesis using assms(2) by (simp add: building_def)
next
  case 3
  then have "held s t = None \<or> held s t = Some (Ref 1)" by (simp add: built_def returning_def)
  then show ?thesis using 3 assms(2) by (simp add: built_def returning_def)
next
  case 4
  then have "held s t = None \<or> held s t = Some (Ref 1)"
    by (simp add: torn_down_def returning_def)
  then show ?thesis using 4 assms(2) by (simp add: torn_down_def returning_def)
qed

text \<open>A thread at the declaration waits while another thread is in the constructor.\<close>

lemma waits:
  assumes "conc_inv s" "pcs s t = At198" "instance (statics s) = Constructing"
  shows "call_step t s = s \<and> (\<exists>c. c \<noteq> t \<and> in_ctor (pcs s c))"
proof -
  obtain c where c: "in_ctor (pcs s c)" using assms conc_inv_in_ctor [of s] by auto
  then have "c \<noteq> t" using assms(2) by auto
  then show ?thesis using c assms by (auto simp: call_step_def)
qed

text \<open>The constructor runs as often as a thread runs its body.\<close>

lemma builds_ctor_calls:
  "length (builds a s) + ctor_calls (statics s) = ctor_calls (statics (act a s))"
proof (cases a)
  case (Step t)
  show ?thesis unfolding Step
    by (cases "pcs s t"; cases "instance (statics s)")
      (simp_all add: builds_def act_def call_step_def micro_defs TestClass2_ctor_def Let_def
        split: sum.splits)
next
  case Exit
  then show ?thesis
    by (simp add: builds_def act_def static_destruction_def destroy_mutex_def
        destroy_guard_def destroy_instance_def TestClass2_dtor_def)
qed

lemma builders_ctor_calls:
  "length (builders acts s) + ctor_calls (statics s) = ctor_calls (statics (crun acts s))"
proof (induction acts arbitrary: s)
  case Nil
  then show ?case by simp
next
  case (Cons a as)
  show ?case using Cons [of "act a s"] builds_ctor_calls [of a s] by simp
qed

lemma builders_after:
  "length (builders acts init_conc) = ctor_calls (statics (after acts))"
  using builders_ctor_calls [of acts init_conc] by (simp add: after_def init_conc_def init_world_def)

text \<open>
  The initialisation begins when the instance leaves \<open>Uninitialized\<close>, and it never comes
  back there.
\<close>

lemma conc_inv_CtorDone:
  assumes "conc_inv s" "pcs s t = CtorDone r"
  shows "r = Inr () \<and> instance (statics s) = Constructing"
proof -
  have "in_ctor (pcs s t)" using assms(2) by simp
  then have i: "instance (statics s) = Constructing"
    using conc_inv_in_ctor [OF assms(1)] by auto
  then obtain c where c: "building c s"
    using assms(1) by (auto simp: conc_inv_def stage_defs)
  then have "t = c" using \<open>in_ctor (pcs s t)\<close> by (simp add: building_in_ctor)
  then show ?thesis using c i assms(2) by (auto simp: building_def)
qed

lemma conc_inv_InCtor:
  assumes "conc_inv s" "pcs s t = InCtor"
  shows "instance (statics s) = Constructing \<and> (in_ctor (pcs s u) \<longrightarrow> u = t)"
proof -
  have "in_ctor (pcs s t)" using assms(2) by simp
  then show ?thesis using conc_inv_in_ctor [OF assms(1), of u t] by auto
qed

lemma begins_Step:
  assumes "begins a s \<noteq> []"
  shows "\<exists>t. a = Step t \<and> begins a s = [t] \<and> pcs s t = At198 \<and>
             instance (statics s) = Uninitialized \<and> pcs (act a s) t = InCtor \<and>
             instance (statics (act a s)) = Constructing"
proof (cases a)
  case (Step t)
  then have p: "pcs s t = At198" and q: "pcs (act (Step t) s) t = InCtor"
    using assms by (simp_all add: begins_def split: if_splits)
  have e: "\<not> exited s" using p q by (auto simp: act_def)
  show ?thesis using Step p q e
    by (cases "instance (statics s)")
      (simp_all add: begins_def act_def call_step_def begin_init_def)
next
  case Exit
  then show ?thesis using assms by (simp add: begins_def)
qed

lemma instance_kept:
  assumes "conc_inv s" "begins a s = []" "instance (statics s) = Uninitialized"
  shows "instance (statics (act a s)) = Uninitialized"
proof (cases a)
  case (Step t)
  have "untouched s" using assms(1,3) by (auto simp: conc_inv_def stage_defs)
  then have b: "before_ctor (pcs s t)" by (simp add: untouched_def)
  show ?thesis
  proof (cases "exited s")
    case True
    then show ?thesis using assms(3) by (simp add: act_def)
  next
    case False
    then show ?thesis using assms(2,3) b Step
      by (cases "pcs s t")
        (simp_all add: begins_def act_def call_step_def micro_defs Let_def)
  qed
next
  case Exit
  then show ?thesis using assms(3) static_destruction_fields [of "statics s"]
    by (simp add: act_def)
qed

lemma instance_left:
  assumes "conc_inv s" "instance (statics s) \<noteq> Uninitialized"
  shows "instance (statics (act a s)) \<noteq> Uninitialized \<and> begins a s = []"
proof -
  have b: "begins a s = []" using begins_Step [of a s] assms(2) by auto
  have "instance (statics (act a s)) \<noteq> Uninitialized"
  proof (cases a)
    case (Step t)
    show ?thesis
    proof (cases "exited s")
      case True
      then show ?thesis using assms(2) by (simp add: act_def)
    next
      case False
      show ?thesis
      proof (cases "pcs s t")
        case (CtorDone r)
        then have "r = Inr ()" using conc_inv_CtorDone [OF assms(1)] by simp
        then show ?thesis using Step False CtorDone
          by (simp add: act_def call_step_def end_init_def)
      qed (use Step False assms(2) in
          \<open>simp_all add: act_def call_step_def micro_defs TestClass2_ctor_def Let_def
             split: phase.splits\<close>)
    qed
  next
    case Exit
    then show ?thesis using assms(2) static_destruction_fields [of "statics s"]
      by (simp add: act_def)
  qed
  then show ?thesis using b by simp
qed

lemma starters_later:
  "conc_inv s \<Longrightarrow> instance (statics s) \<noteq> Uninitialized \<Longrightarrow> starters acts s = []"
proof (induction acts arbitrary: s)
  case Nil
  then show ?case by simp
next
  case (Cons a as)
  then show ?case using instance_left [of s a] conc_inv_act [of s a] by simp
qed

lemma starters_once: "conc_inv s \<Longrightarrow> length (starters acts s) \<le> 1"
proof (induction acts arbitrary: s)
  case Nil
  then show ?case by simp
next
  case (Cons a as)
  show ?case
  proof (cases "begins a s = []")
    case True
    then show ?thesis using Cons.IH [of "act a s"] Cons.prems conc_inv_act [of s a] by simp
  next
    case False
    then obtain t where t: "begins a s = [t]" "instance (statics (act a s)) = Constructing"
      using begins_Step [of a s] by auto
    then have "starters as (act a s) = []"
      using starters_later [of "act a s" as] Cons.prems conc_inv_act [of s a] by simp
    then show ?thesis using t by simp
  qed
qed

text \<open>The thread that runs the constructor body is the thread that began the initialisation.\<close>

lemma builds_none:
  "\<forall>t. pcs s t \<noteq> InCtor \<Longrightarrow> builds a s = []"
  by (cases a) (simp_all add: builds_def)

lemma no_InCtor_kept:
  assumes "conc_inv s" "instance (statics s) \<noteq> Uninitialized" "\<forall>t. pcs s t \<noteq> InCtor"
  shows "\<forall>t. pcs (act a s) t \<noteq> InCtor"
proof (cases a)
  case (Step u)
  show ?thesis
  proof (cases "exited s")
    case True
    then show ?thesis using assms(3) by (simp add: act_def)
  next
    case False
    have "pcs s u \<noteq> InCtor" using assms(3) by simp
    then show ?thesis using Step False assms(2,3)
      by (cases "pcs s u")
        (simp_all add: act_def call_step_def Let_def split: phase.splits sum.splits)
  qed
next
  case Exit
  then show ?thesis using assms(3) by (simp add: act_def)
qed

lemma builders_later:
  "conc_inv s \<Longrightarrow> instance (statics s) \<noteq> Uninitialized \<Longrightarrow> \<forall>t. pcs s t \<noteq> InCtor \<Longrightarrow>
   builders acts s = []"
proof (induction acts arbitrary: s)
  case Nil
  then show ?case by simp
next
  case (Cons a as)
  have "builders as (act a s) = []"
    using Cons.IH [of "act a s"] Cons.prems conc_inv_act [of s a] instance_left [of s a]
      no_InCtor_kept [of s a]
    by simp
  then show ?case using Cons.prems(3) by (simp add: builds_none)
qed

lemma builders_in_ctor:
  "conc_inv s \<Longrightarrow> pcs s c = InCtor \<Longrightarrow> builders acts s = [] \<or> builders acts s = [c]"
proof (induction acts arbitrary: s)
  case Nil
  then show ?case by simp
next
  case (Cons a as)
  have i: "instance (statics s) = Constructing" and u: "\<And>u. in_ctor (pcs s u) \<Longrightarrow> u = c"
    using conc_inv_InCtor [OF Cons.prems] by auto
  have n: "instance (statics (act a s)) \<noteq> Uninitialized"
    using instance_left [OF Cons.prems(1), of a] i by simp
  show ?case
  proof (cases "a = Step c \<and> \<not> exited s")
    case True
    then have p: "\<forall>t. pcs (act a s) t \<noteq> InCtor"
      using Cons.prems(2) u by (auto simp: act_def call_step_def run_ctor_def Let_def
          split: prod.splits)
    have "builders as (act a s) = []"
      using builders_later [OF conc_inv_act [OF Cons.prems(1)] n p] .
    then show ?thesis using True Cons.prems(2) by (simp add: builds_def)
  next
    case False
    have b: "builds a s = []"
    proof (cases a)
      case (Step t)
      then show ?thesis using False u [of t] by (auto simp: builds_def)
    next
      case Exit
      then show ?thesis by (simp add: builds_def)
    qed
    have "pcs (act a s) c = InCtor"
    proof (cases a)
      case (Step t)
      show ?thesis
      proof (cases "exited s")
        case True
        then show ?thesis using Cons.prems(2) by (simp add: act_def)
      next
        case e: False
        then have "t \<noteq> c" using False Step by simp
        then show ?thesis using Step e Cons.prems(2)
          by (cases "pcs s t")
            (simp_all add: act_def call_step_def Let_def split: phase.splits sum.splits
              prod.splits)
      qed
    next
      case Exit
      then show ?thesis using Cons.prems(2) by (simp add: act_def)
    qed
    then show ?thesis
      using Cons.IH [of "act a s"] conc_inv_act [OF Cons.prems(1), of a] b by simp
  qed
qed

lemma builders_starters:
  "conc_inv s \<Longrightarrow> instance (statics s) = Uninitialized \<Longrightarrow>
   builders acts s = [] \<or> builders acts s = starters acts s"
proof (induction acts arbitrary: s)
  case Nil
  then show ?case by simp
next
  case (Cons a as)
  have "untouched s" using Cons.prems by (auto simp: conc_inv_def stage_defs)
  then have "\<forall>t. before_ctor (pcs s t)" by (simp add: untouched_def)
  then have "\<forall>t. pcs s t \<noteq> InCtor" by (metis before_ctor.simps(5))
  then have b: "builds a s = []" by (rule builds_none)
  have v: "conc_inv (act a s)" using Cons.prems(1) by (rule conc_inv_act)
  show ?case
  proof (cases "begins a s = []")
    case True
    then have "instance (statics (act a s)) = Uninitialized"
      using instance_kept [OF Cons.prems(1)] Cons.prems(2) by simp
    then show ?thesis using Cons.IH [OF v] b True by simp
  next
    case False
    then obtain t where t: "begins a s = [t]" "pcs (act a s) t = InCtor"
      "instance (statics (act a s)) = Constructing"
      using begins_Step [of a s] by auto
    have "starters as (act a s) = []" using starters_later [OF v] t(3) by simp
    then show ?thesis using builders_in_ctor [OF v t(2), of as] b t(1) by auto
  qed
qed

lemma constructed_by:
  assumes "ctor_calls (statics (after acts)) = 1"
  shows "\<exists>c. builders acts init_conc = [c] \<and> starters acts init_conc = [c]"
proof -
  have l: "length (builders acts init_conc) = 1" using assms by (simp add: builders_after)
  have "builders acts init_conc = [] \<or> builders acts init_conc = starters acts init_conc"
    using builders_starters [OF conc_inv_init] by (simp add: init_conc_def init_world_def)
  then have e: "builders acts init_conc = starters acts init_conc" using l by auto
  obtain c where "builders acts init_conc = [c]"
    using l by (cases "builders acts init_conc") auto
  then show ?thesis using e by simp
qed

section \<open>Every thread receives the reference\<close>

lemma running_call_step:
  assumes "running N s" "t < N"
  shows "running N (call_step t s)"
proof -
  have "\<forall>u. N \<le> u \<longrightarrow> pcs (call_step t s) u = pcs s u"
    using assms(2)
    by (cases "pcs s t")
      (auto simp: call_step_def Let_def split: sum.splits phase.splits prod.splits)
  then show ?thesis using assms(1)
    by (simp add: running_def conc_inv_call_step exited_call_step)
qed

lemma first_call_left_other:
  "u \<noteq> t \<Longrightarrow> first_call_left t (call_step u s) = first_call_left t s"
  by (cases "pcs s u")
    (auto simp: first_call_left_def call_step_def Let_def
      split: sum.splits phase.splits prod.splits)

lemma pcs_other: "u \<noteq> t \<Longrightarrow> pcs (call_step u s) t = pcs s t"
  by (cases "pcs s u")
    (auto simp: call_step_def Let_def split: sum.splits phase.splits prod.splits)

lemma first_call_left_own:
  "first_call_left t (call_step t s) \<le> first_call_left t s"
  by (cases "pcs s t")
    (auto simp: first_call_left_def call_step_def Let_def
      split: sum.splits phase.splits prod.splits)

lemma first_call_left_call_step:
  "first_call_left t (call_step u s) \<le> first_call_left t s"
  using first_call_left_other [of u t s] first_call_left_own [of t s] by (cases "u = t") auto

lemma in_ctor_own:
  assumes "instance (statics s) \<noteq> Uninitialized"
  shows "(pcs s t \<noteq> InCtor \<longrightarrow> pcs (call_step t s) t \<noteq> InCtor) \<and>
         (\<not> in_ctor (pcs s t) \<longrightarrow> \<not> in_ctor (pcs (call_step t s) t))"
  using assms
  by (cases "pcs s t")
    (auto simp: call_step_def Let_def split: sum.splits phase.splits prod.splits)

lemma in_ctor_call_step:
  assumes "instance (statics s) \<noteq> Uninitialized"
  shows "(pcs s t \<noteq> InCtor \<longrightarrow> pcs (call_step u s) t \<noteq> InCtor) \<and>
         (\<not> in_ctor (pcs s t) \<longrightarrow> \<not> in_ctor (pcs (call_step u s) t))"
  using in_ctor_own [OF assms, of t] pcs_other [of u t s] by (cases "u = t") auto

lemma Ready_call_step:
  assumes "running N s" "instance (statics s) = Ready"
  shows "instance (statics (call_step u s)) = Ready"
proof -
  have "built s" using assms by (auto simp: running_def conc_inv_def stage_defs)
  then show ?thesis using built_call_step [of s u] by (simp add: built_def)
qed

lemma not_Uninitialized_call_step:
  assumes "running N s" "instance (statics s) \<noteq> Uninitialized"
  shows "instance (statics (call_step u s)) \<noteq> Uninitialized"
  using assms instance_left [of s "Step u"] by (simp add: running_def act_def)

lemma reached_kept:
  assumes "running N s" "reached k t s"
  shows "reached k t (call_step u s)"
proof -
  have 1: "first_call_left t (call_step u s) \<le> left_after k"
    using assms(2) first_call_left_call_step [of t u s] by (simp add: reached_def)
  have 2: "4 \<le> k \<longrightarrow> instance (statics (call_step u s)) \<noteq> Uninitialized"
    using assms not_Uninitialized_call_step [of N s u] by (simp add: reached_def)
  have 3: "5 \<le> k \<longrightarrow> pcs (call_step u s) t \<noteq> InCtor"
    using assms(2) in_ctor_call_step [of s t u] by (simp add: reached_def)
  have 4: "6 \<le> k \<longrightarrow> \<not> in_ctor (pcs (call_step u s) t)"
    using assms(2) in_ctor_call_step [of s t u] by (simp add: reached_def)
  have 5: "7 \<le> k \<longrightarrow> instance (statics (call_step u s)) = Ready"
    using assms Ready_call_step [of N s u] by (simp add: reached_def)
  show ?thesis using 1 2 3 4 5 by (simp add: reached_def)
qed

lemma early_advance:
  assumes "running N s" "first_call_left t s \<le> Suc n" "4 \<le> n"
  shows "first_call_left t (call_step t s) \<le> n"
proof (cases "first_call_left t s \<le> n")
  case True
  then show ?thesis using first_call_left_own [of t s] by simp
next
  case False
  then have e: "first_call_left t s = Suc n" using assms(2) by simp
  then have h: "held s t = None" using assms(3) by (auto simp: first_call_left_def split: if_splits)
  have l: "lock_ok (statics s)" using assms(1) by (simp add: running_def conc_inv_def)
  show ?thesis using e h l assms(3)
    by (cases "pcs s t")
      (auto simp: first_call_left_def call_step_def decl_guard_def lock_ok_def Let_def)
qed

lemma begin_or_later:
  assumes "running N s" "first_call_left t s \<le> 4"
  shows "instance (statics (call_step t s)) \<noteq> Uninitialized"
proof (cases "instance (statics s) = Uninitialized")
  case True
  then have "untouched s" using assms(1) by (auto simp: running_def conc_inv_def stage_defs)
  then have "held s t = None" "before_ctor (pcs s t)" by (simp_all add: untouched_def)
  then show ?thesis using assms(2) True
    by (cases "pcs s t") (simp_all add: first_call_left_def call_step_def begin_init_def)
next
  case False
  then show ?thesis using assms(1) by (rule not_Uninitialized_call_step [rotated])
qed

lemma body_done:
  assumes "instance (statics s) \<noteq> Uninitialized"
  shows "pcs (call_step t s) t \<noteq> InCtor"
  using assms
  by (cases "pcs s t")
    (auto simp: call_step_def Let_def split: sum.splits phase.splits prod.splits)

lemma init_done:
  assumes "instance (statics s) \<noteq> Uninitialized" "pcs s t \<noteq> InCtor"
  shows "\<not> in_ctor (pcs (call_step t s) t)"
  using assms
  by (cases "pcs s t")
    (auto simp: call_step_def Let_def split: sum.splits phase.splits prod.splits)

lemma all_out_Ready:
  assumes "running N s" "\<forall>u<N. reached 6 u s" "t < N"
  shows "instance (statics s) = Ready"
proof -
  have "\<not> in_ctor (pcs s u)" for u
  proof (cases "u < N")
    case True
    then show ?thesis using assms(2) by (simp add: reached_def)
  next
    case False
    then have "pcs s u = Outside" using assms(1) by (simp add: running_def)
    then show ?thesis by simp
  qed
  then have c: "instance (statics s) \<noteq> Constructing"
    using assms(1) conc_inv_in_ctor [of s] by (simp add: running_def)
  have u: "instance (statics s) \<noteq> Uninitialized"
    using assms(2,3) by (simp add: reached_def)
  have d: "instance (statics s) \<noteq> Destroyed"
    using assms(1) conc_inv_counts [of s] by (auto simp: running_def)
  show ?thesis using c u d by (cases "instance (statics s)") simp_all
qed

lemma to_return:
  assumes "instance (statics s) = Ready" "first_call_left t s \<le> 4" "\<not> in_ctor (pcs s t)"
  shows "first_call_left t (call_step t s) \<le> 1"
proof (cases "held s t")
  case None
  then show ?thesis using assms
    by (cases "pcs s t") (simp_all add: first_call_left_def call_step_def)
next
  case (Some r)
  then show ?thesis using first_call_left_own [of t s] by (simp add: first_call_left_def)
qed

lemma returned:
  assumes "first_call_left t s \<le> 1"
  shows "first_call_left t (call_step t s) = 0"
proof (cases "held s t")
  case None
  then show ?thesis using assms
    by (cases "pcs s t") (simp_all add: first_call_left_def call_step_def)
next
  case (Some r)
  then show ?thesis using first_call_left_own [of t s] by (simp add: first_call_left_def)
qed

lemma reached_advance:
  assumes r: "running N s" and t: "t < N" and a: "\<forall>u<N. reached k u s"
  shows "reached (Suc k) t (call_step t s)"
proof -
  have o: "reached k t s" using a t by simp
  have m: "reached k t (call_step t s)" using r o by (rule reached_kept)
  consider "k \<le> 2" | "k = 3" | "k = 4" | "k = 5" | "k = 6" | "k = 7" | "8 \<le> k" by linarith
  then show ?thesis
  proof cases
    case 1
    then have "first_call_left t s \<le> Suc (6 - k)" using o by (simp add: reached_def left_after_def)
    then have "first_call_left t (call_step t s) \<le> 6 - k"
      using early_advance [OF r, of t "6 - k"] 1 by simp
    then show ?thesis using 1 by (simp add: reached_def left_after_def)
  next
    case 2
    then have "first_call_left t s \<le> 4" using o by (simp add: reached_def left_after_def)
    then have "instance (statics (call_step t s)) \<noteq> Uninitialized"
      using begin_or_later [OF r] by simp
    then show ?thesis using 2 m by (simp add: reached_def left_after_def)
  next
    case 3
    then have "instance (statics s) \<noteq> Uninitialized" using o by (simp add: reached_def)
    then have "pcs (call_step t s) t \<noteq> InCtor" by (rule body_done)
    then show ?thesis using 3 m by (simp add: reached_def left_after_def)
  next
    case 4
    then have "instance (statics s) \<noteq> Uninitialized" "pcs s t \<noteq> InCtor"
      using o by (simp_all add: reached_def)
    then have "\<not> in_ctor (pcs (call_step t s) t)" by (rule init_done)
    then show ?thesis using 4 m by (simp add: reached_def left_after_def)
  next
    case 5
    then have i: "instance (statics s) = Ready" using all_out_Ready [OF r _ t] a by simp
    have "first_call_left t s \<le> 4" "\<not> in_ctor (pcs s t)"
      using o 5 by (simp_all add: reached_def left_after_def)
    then have "first_call_left t (call_step t s) \<le> 1" using to_return [OF i] by simp
    then show ?thesis using 5 m Ready_call_step [OF r i, of t]
      by (simp add: reached_def left_after_def)
  next
    case 6
    then have "first_call_left t s \<le> 1" using o by (simp add: reached_def left_after_def)
    then have "first_call_left t (call_step t s) = 0" by (rule returned)
    then show ?thesis using 6 m by (simp add: reached_def left_after_def)
  next
    case 7
    then show ?thesis using m by (simp add: reached_def left_after_def)
  qed
qed

text \<open>A round brings every thread one stage further.\<close>

lemma steps_kept:
  "running N s \<Longrightarrow> set acts \<subseteq> Step ` {..<N} \<Longrightarrow> reached k t s \<Longrightarrow>
   running N (crun acts s) \<and> reached k t (crun acts s)"
proof (induction acts arbitrary: s)
  case Nil
  then show ?case by simp
next
  case (Cons a as)
  then obtain u where u: "a = Step u" "u < N" by auto
  have e: "act a s = call_step u s" using u Cons.prems(1) by (simp add: act_def running_def)
  have "running N (act a s)" "reached k t (act a s)"
    using e u running_call_step [OF Cons.prems(1)] reached_kept [OF Cons.prems(1,3)]
    by simp_all
  then show ?case using Cons.IH [of "act a s"] Cons.prems(2) by simp
qed

lemma steps_advance:
  "running N s \<Longrightarrow> set acts \<subseteq> Step ` {..<N} \<Longrightarrow> \<forall>u<N. reached k u s \<Longrightarrow>
   Step t \<in> set acts \<Longrightarrow> reached (Suc k) t (crun acts s)"
proof (induction acts arbitrary: s)
  case Nil
  then show ?case by simp
next
  case (Cons a as)
  then obtain u where u: "a = Step u" "u < N" by auto
  have e: "act a s = call_step u s" using u Cons.prems(1) by (simp add: act_def running_def)
  have r: "running N (act a s)" using e u running_call_step [OF Cons.prems(1)] by simp
  have s: "set as \<subseteq> Step ` {..<N}" using Cons.prems(2) by simp
  show ?case
  proof (cases "u = t")
    case True
    then have "reached (Suc k) t (act a s)"
      using reached_advance [OF Cons.prems(1) _ Cons.prems(3), of t] u e by simp
    then show ?thesis using steps_kept [OF r s] by simp
  next
    case False
    then have i: "Step t \<in> set as" using Cons.prems(4) u by simp
    have "\<forall>v<N. reached k v (act a s)"
      using reached_kept [OF Cons.prems(1)] Cons.prems(3) e by simp
    then show ?thesis using Cons.IH [OF r s _ i] by simp
  qed
qed

lemma round_advance:
  assumes "running N s" "round_of N acts" "\<forall>u<N. reached k u s"
  shows "running N (crun acts s) \<and> (\<forall>u<N. reached (Suc k) u (crun acts s))"
proof -
  have s: "set acts \<subseteq> Step ` {..<N}" using assms(2) by (simp add: round_of_def)
  have "running N (crun acts s)"
  proof (cases N)
    case 0
    then have "acts = []" using s by simp
    then show ?thesis using assms(1) by simp
  next
    case (Suc n)
    then have "reached k 0 s" using assms(3) by simp
    then show ?thesis using steps_kept [OF assms(1) s] by simp
  qed
  moreover have "reached (Suc k) u (crun acts s)" if "u < N" for u
  proof -
    have "Step u \<in> set acts" using assms(2) that by (simp add: round_of_def)
    then show ?thesis using steps_advance [OF assms(1) s assms(3)] by simp
  qed
  ultimately show ?thesis by simp
qed

lemma rounds_advance:
  "running N s \<Longrightarrow> fair N rounds \<Longrightarrow> \<forall>u<N. reached k u s \<Longrightarrow>
   running N (crun (concat rounds) s) \<and>
   (\<forall>u<N. reached (k + length rounds) u (crun (concat rounds) s))"
proof (induction rounds arbitrary: s k)
  case Nil
  then show ?case by simp
next
  case (Cons r rs)
  have a: "running N (crun r s) \<and> (\<forall>u<N. reached (Suc k) u (crun r s))"
    using round_advance [OF Cons.prems(1) _ Cons.prems(3), of r] Cons.prems(2)
    by (simp add: fair_def)
  have "fair N rs" using Cons.prems(2) by (simp add: fair_def)
  then show ?case using Cons.IH [of "crun r s" "Suc k"] a by (simp add: crun_append)
qed

lemma reached_init: "reached 0 t init_conc"
  by (simp add: reached_def first_call_left_def init_conc_def left_after_def)

lemma running_init: "running N init_conc"
  by (simp add: running_def conc_inv_init) (simp add: init_conc_def)

lemma reached_0: "reached 0 t s"
proof -
  have "steps_left pc \<le> 7" for pc by (cases pc) simp_all
  then show ?thesis by (simp add: reached_def first_call_left_def left_after_def)
qed

lemma all_receive_later:
  assumes "set acts \<subseteq> Step ` {..<N}" "fair N rounds" "8 \<le> length rounds" "t < N"
  shows "held (after (acts @ concat rounds)) t = Some (Ref 1) \<and>
         ctor_calls (statics (after (acts @ concat rounds))) = 1"
proof -
  let ?s = "after (acts @ concat rounds)"
  have r: "running N (after acts)"
    using steps_kept [OF running_init assms(1) reached_0, of 0] by (simp add: after_def)
  have "reached (length rounds) t ?s"
    using rounds_advance [OF r assms(2), of 0] reached_0 assms(4)
    by (simp add: after_def crun_append)
  then have z: "first_call_left t ?s = 0"
    using assms(3) by (simp add: reached_def left_after_def)
  have "held ?s t \<noteq> None"
  proof
    assume n: "held ?s t = None"
    then have "steps_left (pcs ?s t) = 0" using z by (simp add: first_call_left_def)
    then show False using conc_inv_no_throw [OF conc_inv_after, of "acts @ concat rounds" t]
      by (cases "pcs ?s t") auto
  qed
  then obtain r where "held ?s t = Some r" by auto
  then show ?thesis using conc_inv_held [OF conc_inv_after, of "acts @ concat rounds" t r]
    by simp
qed

text \<open>
  C1. Any number of threads call \<open>GetInstance\<close>, their calls overlapping in any way, before
  \<open>main\<close> returns. Under every schedule the constructor has run at most once, and as often
  as a thread has run its body; at most one thread is in the constructor; a thread that
  reaches the declaration of the instance while it is under construction does not pass,
  and another thread is in the constructor then; a thread that has received a reference
  holds that of the one constructor run, the instance is ready, and one thread began the
  initialisation and ran the constructor; no call throws. And when the threads \<open>0\<close> to
  \<open>N - 1\<close> have run under any schedule and eight rounds follow in which each of them
  steps, every one of them has received that reference.
\<close>

theorem GetInstance_constructs_once:
  assumes "Exit \<notin> set acts"
  shows
    "ctor_calls (statics (after acts)) \<le> 1 \<and>
     length (builders acts init_conc) = ctor_calls (statics (after acts)) \<and>
     (in_ctor (pcs (after acts) t) \<and> in_ctor (pcs (after acts) u) \<longrightarrow> t = u) \<and>
     (pcs (after acts) t = At198 \<and> instance (statics (after acts)) = Constructing \<longrightarrow>
        after (acts @ [Step t]) = after acts \<and>
        (\<exists>c. c \<noteq> t \<and> in_ctor (pcs (after acts) c))) \<and>
     (held (after acts) t = Some r \<longrightarrow>
        r = Ref 1 \<and> instance (statics (after acts)) = Ready \<and>
        ctor_calls (statics (after acts)) = 1 \<and>
        (\<exists>c. builders acts init_conc = [c] \<and> starters acts init_conc = [c])) \<and>
     pcs (after acts) t \<noteq> Thrown e \<and>
     (set acts \<subseteq> Step ` {..<N} \<and> fair N rounds \<and> 8 \<le> length rounds \<and> t < N \<longrightarrow>
        held (after (acts @ concat rounds)) t = Some (Ref 1) \<and>
        ctor_calls (statics (after (acts @ concat rounds))) = 1)"
proof -
  have v: "conc_inv (after acts)" by (rule conc_inv_after)
  have x: "\<not> exited (after acts)" using assms by (rule exited_after)
  have 1: "ctor_calls (statics (after acts)) \<le> 1" using conc_inv_counts [OF v] by simp
  have 2: "length (builders acts init_conc) = ctor_calls (statics (after acts))"
    by (rule builders_after)
  have 3: "in_ctor (pcs (after acts) t) \<and> in_ctor (pcs (after acts) u) \<longrightarrow> t = u"
    using conc_inv_in_ctor [OF v] by simp
  have 4: "pcs (after acts) t = At198 \<and> instance (statics (after acts)) = Constructing \<longrightarrow>
        after (acts @ [Step t]) = after acts \<and>
        (\<exists>c. c \<noteq> t \<and> in_ctor (pcs (after acts) c))"
    using waits [OF v, of t] x by (simp add: after_snoc act_def)
  have 5: "held (after acts) t = Some r \<longrightarrow>
        r = Ref 1 \<and> instance (statics (after acts)) = Ready \<and>
        ctor_calls (statics (after acts)) = 1 \<and>
        (\<exists>c. builders acts init_conc = [c] \<and> starters acts init_conc = [c])"
  proof
    assume "held (after acts) t = Some r"
    then have h: "r = Ref 1 \<and> instance (statics (after acts)) = Ready \<and>
        ctor_calls (statics (after acts)) = 1"
      using conc_inv_held [OF v, of t r] x by simp
    then show "r = Ref 1 \<and> instance (statics (after acts)) = Ready \<and>
        ctor_calls (statics (after acts)) = 1 \<and>
        (\<exists>c. builders acts init_conc = [c] \<and> starters acts init_conc = [c])"
      using constructed_by [of acts] by simp
  qed
  have 6: "pcs (after acts) t \<noteq> Thrown e" using v by (rule conc_inv_no_throw)
  have 7: "set acts \<subseteq> Step ` {..<N} \<and> fair N rounds \<and> 8 \<le> length rounds \<and> t < N \<longrightarrow>
        held (after (acts @ concat rounds)) t = Some (Ref 1) \<and>
        ctor_calls (statics (after (acts @ concat rounds))) = 1"
    using all_receive_later [of acts N rounds t] by simp
  show ?thesis using 1 2 3 4 5 6 7 by blast
qed

theorem GetInstance_constructs_once_witness:
  "Exit \<notin> set overlapping \<and>
   held (after overlapping) 0 = Some (Ref 1) \<and>
   instance (statics (after overlapping)) = Ready \<and>
   ctor_calls (statics (after overlapping)) = 1 \<and>
   builders overlapping init_conc = [0] \<and> starters overlapping init_conc = [0] \<and>
   Exit \<notin> set (take 8 overlapping) \<and>
   pcs (after (take 8 overlapping)) 0 = InCtor \<and>
   pcs (after (take 8 overlapping)) 1 = At198 \<and>
   instance (statics (after (take 8 overlapping))) = Constructing \<and>
   after (take 8 overlapping @ [Step 1]) = after (take 8 overlapping) \<and>
   set overlapping \<subseteq> Step ` {..<3} \<and> fair 3 eight_rounds \<and> 8 \<le> length eight_rounds \<and>
   held (after (overlapping @ concat eight_rounds)) 2 = Some (Ref 1) \<and>
   ctor_calls (statics (after (overlapping @ concat eight_rounds))) = 1"
proof -
  have a: "Exit \<notin> set overlapping" by (simp add: overlapping_def)
  have b: "held (after overlapping) 0 = Some (Ref 1)" by code_simp
  have c: "builders overlapping init_conc = [0]" by code_simp
  have d: "starters overlapping init_conc = [0]" by code_simp
  have e: "Exit \<notin> set (take 8 overlapping)" by (simp add: overlapping_def)
  have f: "pcs (after (take 8 overlapping)) 0 = InCtor" by code_simp
  have g: "pcs (after (take 8 overlapping)) 1 = At198" by code_simp
  have h: "instance (statics (after (take 8 overlapping))) = Constructing" by code_simp
  have i: "set overlapping \<subseteq> Step ` {..<3}"
    by (simp add: overlapping_def lessThan_Suc eval_nat_numeral)
  have j: "fair 3 eight_rounds"
    by (auto simp: fair_def round_of_def eight_rounds_def lessThan_Suc eval_nat_numeral)
  have k: "8 \<le> length eight_rounds" by (simp add: eight_rounds_def)
  have l: "(2::nat) < 3" by simp
  have m: "instance (statics (after overlapping)) = Ready \<and>
           ctor_calls (statics (after overlapping)) = 1"
    using b
      GetInstance_constructs_once [OF a, of 0 0 "Ref 1" ConstructionFailure 3 eight_rounds,
        THEN conjunct2, THEN conjunct2, THEN conjunct2, THEN conjunct2, THEN conjunct1]
    by blast
  have n: "after (take 8 overlapping @ [Step 1]) = after (take 8 overlapping)"
    using g h
      GetInstance_constructs_once [OF e, of 1 1 "Ref 1" ConstructionFailure 3 eight_rounds,
        THEN conjunct2, THEN conjunct2, THEN conjunct2, THEN conjunct1]
    by blast
  have o: "held (after (overlapping @ concat eight_rounds)) 2 = Some (Ref 1) \<and>
           ctor_calls (statics (after (overlapping @ concat eight_rounds))) = 1"
    using i j k l
      GetInstance_constructs_once [OF a, of 2 2 "Ref 1" ConstructionFailure 3 eight_rounds,
        THEN conjunct2, THEN conjunct2, THEN conjunct2, THEN conjunct2, THEN conjunct2,
        THEN conjunct2]
    by blast
  show ?thesis using a b c d e f g h i j k m n o by blast
qed

section \<open>The lifecycle of the resource\<close>

lemma follows_append:
  "follows a (xs @ ys) = (follows a xs \<and> follows (last (a # xs)) ys)"
  by (induction xs arbitrary: a) simp_all

lemma decl_guard_instance: "decl_guard w = Inr w' \<Longrightarrow> instance w' = instance w"
  by (auto simp: decl_guard_def split: if_splits)

lemma GetInstance_trace_follows:
  "follows (instance w) (map instance (GetInstance_trace TestClass2_ctor w))"
proof (cases "decl_guard (decl_mutex w)")
  case (Inl e)
  then show ?thesis by (simp add: GetInstance_trace_def decl_mutex_def)
next
  case (Inr w2)
  have m: "instance (decl_mutex w) = instance w" by (simp add: decl_mutex_def)
  have g: "instance w2 = instance w" using decl_guard_instance [OF Inr] m by simp
  show ?thesis
  proof (cases "instance w = Uninitialized")
    case True
    then show ?thesis using Inr m g
      by (simp add: GetInstance_trace_def begin_init_def run_ctor_def end_init_def
          TestClass2_ctor_def edge_def Let_def)
  next
    case False
    then show ?thesis using Inr m g by (simp add: GetInstance_trace_def)
  qed
qed

lemma decl_instance_last:
  "snd (decl_instance c w) =
   last (w # (if instance w = Uninitialized
              then (let w3 = begin_init w; (r, w4) = run_ctor c w3 in [w3, w4, end_init r w4])
              else []))"
  by (cases "instance w") (simp_all add: decl_instance_def Let_def split: prod.splits)

lemma GetInstance_trace_last:
  "last (w # GetInstance_trace c w) = snd (GetInstance_with c w)"
proof (cases "decl_guard (decl_mutex w)")
  case (Inl e)
  then show ?thesis by (simp add: GetInstance_trace_def GetInstance_with_def)
next
  case (Inr w2)
  have "snd (GetInstance_with c w) = snd (decl_instance c w2)"
    using Inr by (simp add: GetInstance_with_def split: prod.splits sum.splits)
  then show ?thesis
    using Inr decl_instance_last [of c w2]
    by (simp add: GetInstance_trace_def Let_def split: prod.splits)
qed

lemma static_destruction_trace_follows:
  "follows (instance w) (map instance (static_destruction_trace w))"
  by (simp add: static_destruction_trace_def destroy_mutex_def destroy_guard_def
      destroy_instance_def TestClass2_dtor_def edge_def)

lemma static_destruction_trace_last:
  "last (w # static_destruction_trace w) = static_destruction w"
  by (simp add: static_destruction_trace_def static_destruction_def)

lemma step_worlds_follows:
  "follows (instance (shared p)) (map instance (step_worlds t p))"
proof (cases "proc p = Running")
  case False
  then show ?thesis by (simp add: step_worlds_def)
next
  case True
  show ?thesis
  proof (cases "calling t p")
    case c: True
    then show ?thesis using True by (simp add: step_worlds_def GetInstance_trace_follows)
  next
    case c: False
    show ?thesis
    proof (cases "t = MainThread \<and> main_pc p = M271")
      case True
      then show ?thesis using c \<open>proc p = Running\<close>
        by (simp add: step_worlds_def static_destruction_trace_follows)
    next
      case False
      have "instance (shared (step t p)) = instance (shared p)"
      proof (cases t)
        case MainThread
        then show ?thesis using c False \<open>proc p = Running\<close>
          by (cases "main_pc p")
             (simp_all add: step_def multithreading_test_step_def print_def calling_def)
      next
        case WorkerThread
        then show ?thesis using c \<open>proc p = Running\<close>
          by (cases "worker_pc p")
             (simp_all add: step_def thread_main_1_step_def print_def calling_def)
      qed
      moreover have "step_worlds t p = [shared (step t p)]"
        using c False \<open>proc p = Running\<close> by (auto simp: step_worlds_def)
      ultimately show ?thesis by simp
    qed
  qed
qed

lemma step_worlds_last: "last (shared p # step_worlds t p) = shared (step t p)"
proof (cases "proc p = Running")
  case False
  then show ?thesis by (simp add: step_worlds_def step_def)
next
  case True
  show ?thesis
  proof (cases "calling t p")
    case c: True
    have "last (shared p # GetInstance_trace TestClass2_ctor (shared p)) =
          snd (GetInstance (shared p))"
      by (simp only: GetInstance_trace_last GetInstance_def)
    moreover have "shared (step t p) = snd (GetInstance (shared p))"
    proof (cases t)
      case MainThread
      then have "main_pc p = M252" using c by (simp add: calling_def)
      then show ?thesis using MainThread True
        by (simp add: step_def multithreading_test_step_def split: prod.splits sum.splits)
    next
      case WorkerThread
      then have "worker_pc p = W221" using c by (simp add: calling_def)
      then show ?thesis using WorkerThread True
        by (simp add: step_def thread_main_1_step_def split: prod.splits sum.splits)
    qed
    ultimately show ?thesis using c True by (simp add: step_worlds_def)
  next
    case c: False
    show ?thesis
    proof (cases "t = MainThread \<and> main_pc p = M271")
      case True
      then have "step_worlds t p = static_destruction_trace (shared p)"
        using c \<open>proc p = Running\<close> by (simp add: step_worlds_def)
      moreover have "shared (step t p) = static_destruction (shared p)"
        using True \<open>proc p = Running\<close> by (simp add: step_def multithreading_test_step_def)
      ultimately show ?thesis by (simp only: static_destruction_trace_last)
    next
      case False
      then have "step_worlds t p = [shared (step t p)]"
        using c \<open>proc p = Running\<close> by (auto simp: step_worlds_def)
      then show ?thesis by simp
    qed
  qed
qed

lemma run_worlds_follows:
  "follows (instance (shared p)) (map instance (run_worlds sched p))"
proof (induction sched arbitrary: p)
  case Nil
  then show ?case by simp
next
  case (Cons t ts)
  have "last (instance (shared p) # map instance (step_worlds t p)) =
        instance (last (shared p # step_worlds t p))"
    by (simp add: last_map)
  then show ?case
    using Cons.IH [of "step t p"] step_worlds_follows [of p t]
    by (simp add: follows_append step_worlds_last del: last.simps)
qed

lemma run_worlds_last: "last (shared p # run_worlds sched p) = shared (run sched p)"
proof (induction sched arbitrary: p)
  case Nil
  then show ?case by simp
next
  case (Cons t ts)
  have "last (shared p # step_worlds t p @ run_worlds ts (step t p)) =
        last (last (shared p # step_worlds t p) # run_worlds ts (step t p))"
    by (cases "run_worlds ts (step t p)") simp_all
  then show ?case using Cons.IH [of "step t p"] by (simp add: step_worlds_last del: last.simps)
qed

lemma transitions_none:
  "follows a ps \<Longrightarrow> a \<noteq> Uninitialized \<Longrightarrow>
   transitions Uninitialized Constructing (a # ps) = 0"
  by (induction ps arbitrary: a) (auto simp: edge_def)

lemma transitions_once:
  "follows a ps \<Longrightarrow> transitions Uninitialized Constructing (a # ps) \<le> 1"
proof (induction ps arbitrary: a)
  case Nil
  then show ?case by simp
next
  case (Cons b bs)
  show ?case
  proof (cases "b = Uninitialized")
    case True
    then show ?thesis using Cons by simp
  next
    case False
    then have "transitions Uninitialized Constructing (b # bs) = 0"
      using Cons.prems transitions_none [of b bs] by simp
    then show ?thesis by simp
  qed
qed

lemma follows_Destroyed: "follows Destroyed ps \<Longrightarrow> set ps \<subseteq> {Destroyed}"
  by (induction ps) (auto simp: edge_def)

lemma follows_terminal:
  "follows a ps \<Longrightarrow> set (dropWhile (\<lambda>x. x \<noteq> Destroyed) (a # ps)) \<subseteq> {Destroyed}"
proof (induction ps arbitrary: a)
  case Nil
  then show ?case by simp
next
  case (Cons b bs)
  show ?case
  proof (cases "a = Destroyed")
    case True
    then show ?thesis using follows_Destroyed [of "b # bs"] Cons.prems by simp
  next
    case False
    then show ?thesis using Cons.IH [of b] Cons.prems by simp
  qed
qed

lemma phases_last: "last (phases sched) = instance (shared (run sched init_prog))"
proof -
  have "last (map instance (shared init_prog # run_worlds sched init_prog)) =
        instance (last (shared init_prog # run_worlds sched init_prog))"
    by (rule last_map) simp
  then show ?thesis by (simp only: phases_def run_worlds_last)
qed

lemma phases_hd:
  "phases sched = Uninitialized # map instance (run_worlds sched init_prog)"
  by (simp add: phases_def init_prog_def init_world_def)

text \<open>The same for calls that overlap.\<close>

lemma call_step_edge:
  assumes "conc_inv s"
  shows "instance (statics (call_step t s)) = instance (statics s) \<or>
         edge (instance (statics s)) (instance (statics (call_step t s)))"
proof (cases "pcs s t")
  case (CtorDone r)
  then have "r = Inr () \<and> instance (statics s) = Constructing"
    using conc_inv_CtorDone [OF assms] by simp
  then show ?thesis using CtorDone by (simp add: call_step_def end_init_def edge_def)
next
  case At195
  then show ?thesis
    by (cases "decl_guard (statics s)") (simp_all add: call_step_def decl_guard_instance)
qed (simp_all add: call_step_def decl_mutex_def begin_init_def run_ctor_def edge_def Let_def
    split: phase.splits prod.splits)

lemma act_worlds_follows:
  "conc_inv s \<Longrightarrow> follows (instance (statics s)) (map instance (act_worlds a s))"
proof (cases a)
  case (Step t)
  assume "conc_inv s"
  then show ?thesis using Step call_step_edge [of s t] by (auto simp: act_worlds_def)
next
  case Exit
  then show ?thesis using static_destruction_trace_follows [of "statics s"]
    by (simp add: act_worlds_def)
qed

lemma act_worlds_last: "last (statics s # act_worlds a s) = statics (act a s)"
proof (cases a)
  case (Step t)
  then show ?thesis by (simp add: act_worlds_def act_def)
next
  case Exit
  then show ?thesis
    by (simp add: act_worlds_def act_def static_destruction_trace_def static_destruction_def)
qed

lemma crun_worlds_last: "last (statics s # crun_worlds acts s) = statics (crun acts s)"
proof (induction acts arbitrary: s)
  case Nil
  then show ?case by simp
next
  case (Cons a as)
  have "last (statics s # act_worlds a s @ crun_worlds as (act a s)) =
        last (last (statics s # act_worlds a s) # crun_worlds as (act a s))"
    by (cases "crun_worlds as (act a s)") simp_all
  then show ?case using Cons.IH [of "act a s"] by (simp add: act_worlds_last del: last.simps)
qed

lemma crun_worlds_follows:
  "conc_inv s \<Longrightarrow> follows (instance (statics s)) (map instance (crun_worlds acts s))"
proof (induction acts arbitrary: s)
  case Nil
  then show ?case by simp
next
  case (Cons a as)
  have l: "last (instance (statics s) # map instance (act_worlds a s)) =
           instance (statics (act a s))"
    using act_worlds_last [of s a] last_map [of "statics s # act_worlds a s" "instance"]
    by simp
  have "follows (instance (statics (act a s))) (map instance (crun_worlds as (act a s)))"
    using Cons.IH [of "act a s"] Cons.prems conc_inv_act by simp
  then show ?case using act_worlds_follows [OF Cons.prems, of a] l
    by (simp add: follows_append del: last.simps)
qed

lemma cphases_hd:
  "cphases acts = Uninitialized # map instance (crun_worlds acts init_conc)"
  by (simp add: cphases_def init_conc_def init_world_def)

lemma cphases_follows:
  "follows Uninitialized (map instance (crun_worlds acts init_conc))"
  using crun_worlds_follows [OF conc_inv_init, of acts]
  by (simp add: init_conc_def init_world_def)

lemma exit_destroys:
  assumes "instance (statics s) = Ready" "pcs s 0 = Outside" "conc_inv s"
  shows "instance (statics (act Exit s)) = Destroyed"
proof -
  have "\<not> exited s" using assms conc_inv_counts [of s] by simp
  then show ?thesis using assms static_destruction_fields [of "statics s"]
    by (simp add: act_def)
qed

lemma destroyed_stays:
  assumes "instance (statics s) = Destroyed" "conc_inv s"
  shows "act a s = s"
proof -
  have "exited s" using assms conc_inv_counts [of s] by simp
  then show ?thesis by (simp add: act_def)
qed

text \<open>
  C5. The phases of the resource under every schedule, of calls that overlap in any
  number of threads with the exit of the process at any place, and of the two threads of
  the program. They start at \<open>Uninitialized\<close>; every step between two consecutive phases
  stays or follows one of the edges \<open>Uninitialized -> Constructing\<close>,
  \<open>Constructing -> Ready\<close>, \<open>Ready -> Destroyed\<close>; the step \<open>Uninitialized -> Constructing\<close>
  is taken at most once; nothing but \<open>Destroyed\<close> follows \<open>Destroyed\<close>. Among the calls that
  overlap at most one thread begins the initialisation and at most one runs the
  constructor body, at any moment at most one thread is in the constructor, one is
  exactly while the resource is \<open>Constructing\<close>, and a thread that finds it \<open>Constructing\<close>
  at the declaration stays there; the exit takes a \<open>Ready\<close> resource to \<open>Destroyed\<close>, and
  no action changes anything after that. In the program the resource is \<open>Destroyed\<close> once
  the main thread has made its 32 steps.
\<close>

theorem lifecycle_state_machine:
  "hd (cphases acts) = Uninitialized \<and>
   follows (hd (cphases acts)) (tl (cphases acts)) \<and>
   transitions Uninitialized Constructing (cphases acts) \<le> 1 \<and>
   set (dropWhile (\<lambda>x. x \<noteq> Destroyed) (cphases acts)) \<subseteq> {Destroyed} \<and>
   length (starters acts init_conc) \<le> 1 \<and>
   length (builders acts init_conc) \<le> 1 \<and>
   (in_ctor (pcs (after acts) t) \<and> in_ctor (pcs (after acts) u) \<longrightarrow> t = u) \<and>
   (instance (statics (after acts)) = Constructing) = (\<exists>c. in_ctor (pcs (after acts) c)) \<and>
   (pcs (after acts) t = At198 \<and> instance (statics (after acts)) = Constructing \<longrightarrow>
      after (acts @ [Step t]) = after acts) \<and>
   (instance (statics (after acts)) = Ready \<and> pcs (after acts) 0 = Outside \<longrightarrow>
      instance (statics (after (acts @ [Exit]))) = Destroyed) \<and>
   (instance (statics (after acts)) = Destroyed \<longrightarrow> after (acts @ [a]) = after acts) \<and>
   hd (phases sched) = Uninitialized \<and>
   follows (hd (phases sched)) (tl (phases sched)) \<and>
   transitions Uninitialized Constructing (phases sched) \<le> 1 \<and>
   set (dropWhile (\<lambda>x. x \<noteq> Destroyed) (phases sched)) \<subseteq> {Destroyed} \<and>
   (32 \<le> count_list sched MainThread \<longrightarrow> last (phases sched) = Destroyed)"
proof -
  have v: "conc_inv (after acts)" by (rule conc_inv_after)
  have g: "follows Uninitialized (map instance (crun_worlds acts init_conc))"
    by (rule cphases_follows)
  have 1: "hd (cphases acts) = Uninitialized \<and>
           follows (hd (cphases acts)) (tl (cphases acts)) \<and>
           transitions Uninitialized Constructing (cphases acts) \<le> 1 \<and>
           set (dropWhile (\<lambda>x. x \<noteq> Destroyed) (cphases acts)) \<subseteq> {Destroyed}"
    using g transitions_once [OF g] follows_terminal [OF g] by (simp add: cphases_hd)
  have 2: "length (starters acts init_conc) \<le> 1"
    using conc_inv_init by (rule starters_once)
  have 3: "length (builders acts init_conc) \<le> 1"
    using conc_inv_counts [OF v] by (simp add: builders_after)
  have 4: "(in_ctor (pcs (after acts) t) \<and> in_ctor (pcs (after acts) u) \<longrightarrow> t = u) \<and>
           (instance (statics (after acts)) = Constructing) =
             (\<exists>c. in_ctor (pcs (after acts) c))"
    using v by (rule conc_inv_in_ctor)
  have 5: "pcs (after acts) t = At198 \<and> instance (statics (after acts)) = Constructing \<longrightarrow>
           after (acts @ [Step t]) = after acts"
    using waits [OF v, of t] by (simp add: after_snoc act_def)
  have 6: "instance (statics (after acts)) = Ready \<and> pcs (after acts) 0 = Outside \<longrightarrow>
           instance (statics (after (acts @ [Exit]))) = Destroyed"
    using exit_destroys [OF _ _ v] by (simp add: after_snoc)
  have 7: "instance (statics (after acts)) = Destroyed \<longrightarrow> after (acts @ [a]) = after acts"
    using destroyed_stays [OF _ v, of a] by (simp add: after_snoc)
  have f: "follows Uninitialized (map instance (run_worlds sched init_prog))"
    using run_worlds_follows [of init_prog sched] by (simp add: init_prog_def init_world_def)
  have 8: "hd (phases sched) = Uninitialized \<and>
           follows (hd (phases sched)) (tl (phases sched)) \<and>
           transitions Uninitialized Constructing (phases sched) \<le> 1 \<and>
           set (dropWhile (\<lambda>x. x \<noteq> Destroyed) (phases sched)) \<subseteq> {Destroyed}"
    using f transitions_once [OF f] follows_terminal [OF f] by (simp add: phases_hd)
  have 9: "32 \<le> count_list sched MainThread \<longrightarrow> last (phases sched) = Destroyed"
  proof
    assume "32 \<le> count_list sched MainThread"
    then have "proc (run sched init_prog) = Exited" by (rule run_exits)
    then have "gone (shared (run sched init_prog))"
      using prog_inv_run [OF prog_inv_init, of sched] by (simp add: prog_inv_def)
    then show "last (phases sched) = Destroyed" by (simp add: phases_last gone_def)
  qed
  show ?thesis using 1 2 3 4 5 6 7 8 9 by blast
qed

theorem lifecycle_state_machine_witness:
  "remdups_adj (cphases (overlapping @ [Exit])) =
     [Uninitialized, Constructing, Ready, Destroyed] \<and>
   follows (hd (cphases (overlapping @ [Exit]))) (tl (cphases (overlapping @ [Exit]))) \<and>
   starters (overlapping @ [Exit]) init_conc = [0] \<and>
   builders (overlapping @ [Exit]) init_conc = [0] \<and>
   in_ctor (pcs (after (take 8 overlapping)) 0) \<and>
   \<not> in_ctor (pcs (after (take 8 overlapping)) 1) \<and>
   pcs (after (take 8 overlapping)) 1 = At198 \<and>
   instance (statics (after (take 8 overlapping))) = Constructing \<and>
   after (take 8 overlapping @ [Step 1]) = after (take 8 overlapping) \<and>
   instance (statics (after overlapping)) = Ready \<and>
   pcs (after overlapping) 0 = Outside \<and>
   instance (statics (after (overlapping @ [Exit]))) = Destroyed \<and>
   after ((overlapping @ [Exit]) @ [Step 0]) = after (overlapping @ [Exit]) \<and>
   32 \<le> count_list worker_first MainThread \<and>
   last (phases worker_first) = Destroyed \<and>
   remdups_adj (phases worker_first) = [Uninitialized, Constructing, Ready, Destroyed]"
proof -
  note w = lifecycle_state_machine [of "take 8 overlapping" 1 0 Exit worker_first]
  note x = lifecycle_state_machine [of overlapping 0 0 Exit worker_first]
  note y = lifecycle_state_machine [of "overlapping @ [Exit]" 0 0 "Step 0" worker_first]
  have a: "remdups_adj (cphases (overlapping @ [Exit])) =
             [Uninitialized, Constructing, Ready, Destroyed]"
    by code_simp
  have b: "starters (overlapping @ [Exit]) init_conc = [0]" by code_simp
  have c: "builders (overlapping @ [Exit]) init_conc = [0]" by code_simp
  have d: "in_ctor (pcs (after (take 8 overlapping)) 0)" by code_simp
  have e: "pcs (after (take 8 overlapping)) 1 = At198" by code_simp
  have f: "instance (statics (after (take 8 overlapping))) = Constructing" by code_simp
  have g: "instance (statics (after overlapping)) = Ready" by code_simp
  have h: "pcs (after overlapping) 0 = Outside" by code_simp
  have i: "32 \<le> count_list worker_first MainThread" by code_simp
  have j: "remdups_adj (phases worker_first) =
             [Uninitialized, Constructing, Ready, Destroyed]"
    by code_simp
  have k: "follows (hd (cphases (overlapping @ [Exit]))) (tl (cphases (overlapping @ [Exit])))"
    using y by (rule conjunct2 [THEN conjunct1])
  have l: "\<not> in_ctor (pcs (after (take 8 overlapping)) 1)"
  proof
    assume "in_ctor (pcs (after (take 8 overlapping)) 1)"
    then have "(1::nat) = 0" using d w by blast
    then show False by simp
  qed
  have m: "after (take 8 overlapping @ [Step 1]) = after (take 8 overlapping)"
    using e f w by blast
  have n: "instance (statics (after (overlapping @ [Exit]))) = Destroyed"
    using g h x by blast
  have o: "after ((overlapping @ [Exit]) @ [Step 0]) = after (overlapping @ [Exit])"
    using n y by blast
  have p: "last (phases worker_first) = Destroyed" using i x by blast
  show ?thesis using a b c d e f g h i j k l m n o p by blast
qed

section \<open>Construction and destruction over the life of the program\<close>

lemma stage_counts:
  "fresh w \<or> ready w \<or> gone w \<Longrightarrow> dtor_calls w \<le> ctor_calls w \<and> ctor_calls w \<le> 1"
  by (auto simp: fresh_def ready_def gone_def)

lemma prog_inv_stage:
  "prog_inv p \<Longrightarrow> fresh (shared p) \<or> ready (shared p) \<or> gone (shared p)"
  by (auto simp: prog_inv_def split: if_splits)

lemma prog_inv_Running_stage:
  "prog_inv p \<Longrightarrow> proc p = Running \<Longrightarrow> fresh (shared p) \<or> ready (shared p)"
  by (auto simp: prog_inv_def split: if_splits)

lemma decl_guard_returns: "registry_inv w \<Longrightarrow> \<exists>w2. decl_guard (decl_mutex w) = Inr w2"
  by (cases "guard_constructed w")
     (simp_all add: registry_inv_def decl_guard_def decl_mutex_def)

lemma GetInstance_trace_counts:
  assumes "fresh w \<or> ready w" "v \<in> set (GetInstance_trace TestClass2_ctor w)"
  shows "dtor_calls v \<le> ctor_calls v \<and> ctor_calls v \<le> 1"
proof -
  have d: "dtor_calls w = 0 \<and> ctor_calls w \<le> 1 \<and>
           (instance w = Uninitialized \<longrightarrow> ctor_calls w = 0)"
    using assms(1) by (auto simp: fresh_def ready_def)
  have m: "dtor_calls (decl_mutex w) = dtor_calls w \<and>
           ctor_calls (decl_mutex w) = ctor_calls w \<and>
           instance (decl_mutex w) = instance w"
    by (simp add: decl_mutex_def)
  have "registry_inv w" using assms(1) by (auto simp: fresh_def ready_def)
  then obtain w2 where g: "decl_guard (decl_mutex w) = Inr w2"
    using decl_guard_returns by blast
  have g2: "dtor_calls w2 = dtor_calls w \<and> ctor_calls w2 = ctor_calls w \<and>
            instance w2 = instance w"
    using g m by (auto simp: decl_guard_def split: if_splits)
  have "v = decl_mutex w \<or> v = w2 \<or>
        (instance w = Uninitialized \<and>
         (v = begin_init w2 \<or>
          v = snd (run_ctor TestClass2_ctor (begin_init w2)) \<or>
          v = end_init (Inr ()) (snd (run_ctor TestClass2_ctor (begin_init w2)))))"
    using assms(2) g g2
    by (auto simp: GetInstance_trace_def Let_def run_ctor_def TestClass2_ctor_def
        split: if_splits)
  then show ?thesis
    using d m g2
    by (auto simp: begin_init_def run_ctor_def end_init_def TestClass2_ctor_def)
qed

lemma static_destruction_trace_counts:
  assumes "ready w" "v \<in> set (static_destruction_trace w)"
  shows "dtor_calls v \<le> ctor_calls v \<and> ctor_calls v \<le> 1"
  using assms
  by (auto simp: ready_def static_destruction_trace_def destroy_mutex_def destroy_guard_def
      destroy_instance_def TestClass2_dtor_def)

lemma step_worlds_counts:
  assumes i: "prog_inv p" and v: "v \<in> set (step_worlds t p)"
  shows "dtor_calls v \<le> ctor_calls v \<and> ctor_calls v \<le> 1"
proof (cases "proc p = Running")
  case False
  then show ?thesis using v by (simp add: step_worlds_def)
next
  case True
  show ?thesis
  proof (cases "calling t p")
    case c: True
    then have "v \<in> set (GetInstance_trace TestClass2_ctor (shared p))"
      using v True by (simp add: step_worlds_def)
    then show ?thesis
      using GetInstance_trace_counts [OF prog_inv_Running_stage [OF i True]] by blast
  next
    case c: False
    show ?thesis
    proof (cases "t = MainThread \<and> main_pc p = M271")
      case True
      then have "v \<in> set (static_destruction_trace (shared p))"
        using v c \<open>proc p = Running\<close> by (simp add: step_worlds_def)
      moreover have "ready (shared p)"
        using i True \<open>proc p = Running\<close> by (simp add: ctl_defs)
      ultimately show ?thesis using static_destruction_trace_counts by blast
    next
      case False
      then have "step_worlds t p = [shared (step t p)]"
        using c \<open>proc p = Running\<close> by (auto simp: step_worlds_def)
      then have "v = shared (step t p)" using v by simp
      then show ?thesis
        using stage_counts [OF prog_inv_stage [OF prog_inv_step [OF i, of t]]] by simp
    qed
  qed
qed

lemma run_worlds_counts:
  "prog_inv p \<Longrightarrow> v \<in> set (run_worlds sched p) \<Longrightarrow>
   dtor_calls v \<le> ctor_calls v \<and> ctor_calls v \<le> 1"
proof (induction sched arbitrary: p)
  case Nil
  then show ?case by simp
next
  case (Cons t ts)
  then show ?case
    using step_worlds_counts [of p v t] prog_inv_step [of p t] by auto
qed

lemma live_instances_le:
  "dtor_calls v \<le> ctor_calls v \<and> ctor_calls v \<le> 1 \<Longrightarrow> live_instances v \<le> 1"
  unfolding live_instances_def by arith

text \<open>
  C6, as amended. Under every schedule the destructor has run at most once, and it has
  run exactly when the process has exited; at the exit the constructor has run once, its
  line precedes the destructor's in the output, and the reference of the main thread is
  out of scope; the process has exited once the main thread has made its 32 steps; and
  in every world that the program passes through at most one instance is live.
\<close>

theorem destructor_once_at_exit:
  "dtor_calls (shared (run sched init_prog)) \<le> 1 \<and>
   (dtor_calls (shared (run sched init_prog)) = 1) = (proc (run sched init_prog) = Exited) \<and>
   (proc (run sched init_prog) = Exited \<longrightarrow>
      ctor_calls (shared (run sched init_prog)) = 1 \<and>
      singleton_trace (shared (run sched init_prog)) =
        [''Constructor called for singleton!'', ''Destructor called for singleton!''] \<and>
      main_instance (run sched init_prog) = None) \<and>
   (32 \<le> count_list sched MainThread \<longrightarrow> proc (run sched init_prog) = Exited) \<and>
   (\<forall>v \<in> set (shared init_prog # run_worlds sched init_prog).
      dtor_calls v \<le> ctor_calls v \<and> live_instances v \<le> 1)"
proof -
  have i: "prog_inv (run sched init_prog)" by (rule prog_inv_run [OF prog_inv_init])
  have a: "dtor_calls (shared (run sched init_prog)) \<le> 1 \<and>
      (dtor_calls (shared (run sched init_prog)) = 1) = (proc (run sched init_prog) = Exited)"
    using i by (auto simp: prog_inv_def fresh_def ready_def gone_def split: if_splits)
  have b: "proc (run sched init_prog) = Exited \<longrightarrow>
      ctor_calls (shared (run sched init_prog)) = 1 \<and>
      singleton_trace (shared (run sched init_prog)) =
        [''Constructor called for singleton!'', ''Destructor called for singleton!''] \<and>
      main_instance (run sched init_prog) = None"
    using i by (auto simp: prog_inv_def gone_def)
  have c: "32 \<le> count_list sched MainThread \<longrightarrow> proc (run sched init_prog) = Exited"
    using run_exits by blast
  have d: "\<forall>v \<in> set (shared init_prog # run_worlds sched init_prog).
      dtor_calls v \<le> ctor_calls v \<and> live_instances v \<le> 1"
  proof
    fix v
    assume "v \<in> set (shared init_prog # run_worlds sched init_prog)"
    then have "v = shared init_prog \<or> v \<in> set (run_worlds sched init_prog)" by simp
    then have "dtor_calls v \<le> ctor_calls v \<and> ctor_calls v \<le> 1"
      using run_worlds_counts [OF prog_inv_init, of v sched]
        stage_counts [OF prog_inv_stage [OF prog_inv_init]]
      by blast
    then show "dtor_calls v \<le> ctor_calls v \<and> live_instances v \<le> 1"
      using live_instances_le by blast
  qed
  show ?thesis using a b c d by blast
qed

theorem destructor_once_at_exit_witness:
  "32 \<le> count_list worker_first MainThread \<and>
   proc (run worker_first init_prog) = Exited \<and>
   dtor_calls (shared (run worker_first init_prog)) = 1 \<and>
   ctor_calls (shared (run worker_first init_prog)) = 1 \<and>
   main_instance (run worker_first init_prog) = None \<and>
   shared init_prog \<in> set (shared init_prog # run_worlds worker_first init_prog) \<and>
   live_instances (shared init_prog) \<le> 1"
proof -
  have c: "32 \<le> count_list worker_first MainThread" by code_simp
  show ?thesis using destructor_once_at_exit [of worker_first] c by simp
qed

text \<open>
  C6, as the claim states it, fails: in the schedule \<open>worker_late\<close> the main thread stands
  at its return from \<open>main\<close> while the worker holds the reference that its call returned;
  the next step of the main thread runs the destructor, and the worker's reference is
  still in scope.
\<close>

theorem destructor_while_reference_held:
  "main_pc (run worker_late init_prog) = M271 \<and>
   worker_instance (run worker_late init_prog) = Some (Ref 1) \<and>
   dtor_calls (shared (run worker_late init_prog)) = 0 \<and>
   dtor_calls (shared (run (worker_late @ [MainThread]) init_prog)) = 1 \<and>
   worker_instance (run (worker_late @ [MainThread]) init_prog) = Some (Ref 1)"
  by code_simp

section \<open>The reference that \<open>GetInstance\<close> returns\<close>

text \<open>
  C3, as amended. \<open>GetInstance\<close> has no parameter (it is a function of the state of the
  statics alone) and returns a plain reference to the one static instance. Under every
  schedule a reference held by either thread denotes the object of the first constructor
  run; both threads can hold it at once; and the object is alive exactly from the end of
  its construction to the exit of the process, whoever holds a reference.
\<close>

theorem GetInstance_plain_reference:
  "(\<forall>r. main_instance (run sched init_prog) = Some r \<or>
         worker_instance (run sched init_prog) = Some r \<longrightarrow>
         r = Ref 1 \<and> ctor_calls (shared (run sched init_prog)) = 1) \<and>
   (instance (shared (run sched init_prog)) = Ready) =
     (ctor_calls (shared (run sched init_prog)) = 1 \<and> proc (run sched init_prog) = Running) \<and>
   (\<exists>s. main_instance (run s init_prog) = Some (Ref 1) \<and>
        worker_instance (run s init_prog) = Some (Ref 1))"
proof -
  have i: "prog_inv (run sched init_prog)" by (rule prog_inv_run [OF prog_inv_init])
  have a: "\<forall>r. main_instance (run sched init_prog) = Some r \<or>
         worker_instance (run sched init_prog) = Some r \<longrightarrow>
         r = Ref 1 \<and> ctor_calls (shared (run sched init_prog)) = 1"
    using i by (auto simp: ctl_defs ready_def gone_def split: if_splits)
  have b: "(instance (shared (run sched init_prog)) = Ready) =
     (ctor_calls (shared (run sched init_prog)) = 1 \<and> proc (run sched init_prog) = Running)"
    using i by (auto simp: prog_inv_def fresh_def ready_def gone_def split: if_splits)
  have "main_instance (run both_hold init_prog) = Some (Ref 1) \<and>
        worker_instance (run both_hold init_prog) = Some (Ref 1)"
    by code_simp
  then have c: "\<exists>s. main_instance (run s init_prog) = Some (Ref 1) \<and>
        worker_instance (run s init_prog) = Some (Ref 1)"
    by blast
  show ?thesis using a b c by blast
qed

theorem GetInstance_plain_reference_witness:
  "main_instance (run both_hold init_prog) = Some (Ref 1) \<and>
   worker_instance (run both_hold init_prog) = Some (Ref 1) \<and>
   ctor_calls (shared (run both_hold init_prog)) = 1 \<and>
   instance (shared (run both_hold init_prog)) = Ready \<and>
   proc (run both_hold init_prog) = Running"
proof -
  have h: "main_instance (run both_hold init_prog) = Some (Ref 1) \<and>
           worker_instance (run both_hold init_prog) = Some (Ref 1) \<and>
           proc (run both_hold init_prog) = Running"
    by code_simp
  show ?thesis using GetInstance_plain_reference [of both_hold] h by simp
qed

text \<open>
  C3, as the claim states it, fails: in the schedule \<open>worker_first\<close> the worker still holds
  the reference of its call when the process has exited and the object is destroyed.
\<close>

theorem reference_outlives_instance:
  "worker_instance (run worker_first init_prog) = Some (Ref 1) \<and>
   proc (run worker_first init_prog) = Exited \<and>
   instance (shared (run worker_first init_prog)) = Destroyed \<and>
   dtor_calls (shared (run worker_first init_prog)) = 1"
  by code_simp

section \<open>The three objects of the shared pointer example\<close>

lemma shared_pointer_test1_result:
  assumes "mem_inv h"
  shows "\<exists>h1. shared_pointer_test1 h = Inr (SharedPtr (next_addr h + 4), h1) \<and>
     destroyed h1 = destroyed h @ [next_addr h + 2, next_addr h] \<and>
     objects h1 =
       (objects h)(next_addr h + 4 \<mapsto> \<lparr>m_value = 3, m_data = next_addr h + 5\<rparr>) \<and>
     arrays h1 = insert (next_addr h + 5) (arrays h) \<and>
     use_count h1 = (use_count h)(next_addr h + 4 \<mapsto> 1) \<and>
     console h1 = console h @ [''Destructor called!'', ''Destructor called!''] \<and>
     next_addr h1 = next_addr h + 6"
  using assms
  apply (simp add: shared_pointer_test1_def make_shared_def new_TestClass1_def alloc_def
      shared_ptr_new_def seq_def delete_TestClass1_def TestClass1_dtor_def delete_array_def
      mem_inv_def)
  apply (auto simp: fun_eq_iff)
  done

lemma mem_inv_say: "mem_inv (say ls h) = mem_inv h"
  by (simp add: mem_inv_def say_def)

lemma last_copy_dtor:
  assumes "objects h1 = (objects h)(a \<mapsto> \<lparr>m_value = v, m_data = d\<rparr>)"
    "arrays h1 = insert d (arrays h)" "use_count h1 = (use_count h)(a \<mapsto> 1)"
    "objects h a = None" "d \<notin> arrays h" "use_count h a = None"
  shows "\<exists>h2. shared_ptr_dtor (SharedPtr a) h1 = Inr h2 \<and>
     destroyed h2 = destroyed h1 @ [a] \<and> objects h2 = objects h \<and> arrays h2 = arrays h \<and>
     use_count h2 = use_count h \<and> console h2 = console h1 @ [''Destructor called!'']"
  using assms
  by (auto simp: seq_def delete_TestClass1_def TestClass1_dtor_def delete_array_def fun_eq_iff)

text \<open>
  C9. From any memory in which the allocator's next addresses are free, with \<open>a\<close> the
  next address: \<open>shared_pointer_test1\<close> builds the three objects at \<open>a\<close>, \<open>a + 2\<close> and \<open>a + 4\<close>
  and returns a pointer to the third; when it returns, the destructor has run for the
  objects of \<open>bptr_tc12\<close> and \<open>bptr_tc11\<close>, once each, and the third object is alive with use
  count one. When \<open>shared_pointer_test\<close> returns the destructor has run for the third
  object too: each of the three was destroyed once, and the objects, the blocks and the
  use counts are those of the start, so that none is left.
\<close>

theorem shared_pointer_test_destroys_each_once:
  assumes "mem_inv h"
  shows "\<exists>h1 h2.
     shared_pointer_test1 h = Inr (SharedPtr (next_addr h + 4), h1) \<and>
     destroyed h1 = destroyed h @ [next_addr h + 2, next_addr h] \<and>
     objects h1 (next_addr h) = None \<and> objects h1 (next_addr h + 2) = None \<and>
     objects h1 (next_addr h + 4) = Some \<lparr>m_value = 3, m_data = next_addr h + 5\<rparr> \<and>
     use_count h1 (next_addr h + 4) = Some 1 \<and>
     shared_pointer_test h = Inr h2 \<and>
     destroyed h2 = destroyed h @ [next_addr h + 2, next_addr h, next_addr h + 4] \<and>
     objects h2 = objects h \<and> arrays h2 = arrays h \<and> use_count h2 = use_count h"
proof -
  have f: "objects h (next_addr h) = None \<and> objects h (next_addr h + 2) = None \<and>
           objects h (next_addr h + 4) = None \<and> next_addr h + 5 \<notin> arrays h \<and>
           use_count h (next_addr h + 4) = None"
    using assms by (simp add: mem_inv_def)
  obtain h1 where 1: "shared_pointer_test1 h = Inr (SharedPtr (next_addr h + 4), h1)"
      "destroyed h1 = destroyed h @ [next_addr h + 2, next_addr h]"
      "objects h1 =
         (objects h)(next_addr h + 4 \<mapsto> \<lparr>m_value = 3, m_data = next_addr h + 5\<rparr>)"
      "use_count h1 = (use_count h)(next_addr h + 4 \<mapsto> 1)"
    using shared_pointer_test1_result [OF assms] by blast
  let ?h = "say ['''', ''Shared pointer example: ''] h"
  have i: "mem_inv ?h" using assms by (simp add: mem_inv_say)
  obtain k1 where 2: "shared_pointer_test1 ?h = Inr (SharedPtr (next_addr ?h + 4), k1)"
      "destroyed k1 = destroyed ?h @ [next_addr ?h + 2, next_addr ?h]"
      "objects k1 =
         (objects ?h)(next_addr ?h + 4 \<mapsto> \<lparr>m_value = 3, m_data = next_addr ?h + 5\<rparr>)"
      "arrays k1 = insert (next_addr ?h + 5) (arrays ?h)"
      "use_count k1 = (use_count ?h)(next_addr ?h + 4 \<mapsto> 1)"
    using shared_pointer_test1_result [OF i] by blast
  let ?k = "say [''We have a copy of the shared pointer. Therefore it will go out of '' @
               ''scope when 'shared_pointer_test' returns instead!''] k1"
  obtain h2 where 3: "shared_ptr_dtor (SharedPtr (next_addr h + 4)) ?k = Inr h2"
      "destroyed h2 = destroyed ?k @ [next_addr h + 4]" "objects h2 = objects h"
      "arrays h2 = arrays h" "use_count h2 = use_count h"
    using last_copy_dtor [of ?k h "next_addr h + 4" 3 "next_addr h + 5"] 2 f
    by (auto simp: say_def)
  have "shared_pointer_test h = Inr h2"
    using 2(1) 3(1) by (simp add: shared_pointer_test_def seq_def say_def)
  moreover have "destroyed h2 = destroyed h @ [next_addr h + 2, next_addr h, next_addr h + 4]"
    using 3(2) 2(2) by (simp add: say_def)
  ultimately show ?thesis using 1 3 f by auto
qed

theorem shared_pointer_test_destroys_each_once_witness:
  "mem_inv init_memory \<and>
   (case shared_pointer_test1 init_memory of
      Inl e \<Rightarrow> False
    | Inr (r, h1) \<Rightarrow> r = SharedPtr 4 \<and> destroyed h1 = [2, 0] \<and> use_count h1 4 = Some 1) \<and>
   (case shared_pointer_test init_memory of
      Inl e \<Rightarrow> False
    | Inr h2 \<Rightarrow> destroyed h2 = [2, 0, 4] \<and> objects h2 4 = None \<and> arrays h2 = {} \<and>
        console h2 =
          ['''', ''Shared pointer example: '', ''Destructor called!'', ''Destructor called!'',
           ''We have a copy of the shared pointer. Therefore it will go out of '' @
           ''scope when 'shared_pointer_test' returns instead!'', ''Destructor called!''])"
proof -
  have i: "mem_inv init_memory" by (simp add: mem_inv_def init_memory_def)
  have e: "(case shared_pointer_test init_memory of
      Inl e \<Rightarrow> False
    | Inr h2 \<Rightarrow> console h2 =
          ['''', ''Shared pointer example: '', ''Destructor called!'', ''Destructor called!'',
           ''We have a copy of the shared pointer. Therefore it will go out of '' @
           ''scope when 'shared_pointer_test' returns instead!'', ''Destructor called!''])"
    by code_simp
  show ?thesis
    using shared_pointer_test_destroys_each_once [OF i] i e by (auto simp: init_memory_def)
qed

section \<open>The random number example is deterministic\<close>

lemma sample_loop_samples:
  "i \<le> n \<Longrightarrow>
   sample_loop api i n g d out = out @ map (put api) (samples api (nat (n - i)) g d)"
proof (induction api i n g d out rule: sample_loop.induct)
  case (1 api i n g d out)
  show ?case
  proof (cases "i < n")
    case False
    then have "sample_loop api i n g d out = out"
      by (subst sample_loop.simps) simp
    then show ?thesis using False "1.prems" by simp
  next
    case True
    obtain v g' d' where v: "variate api g d = (v, g', d')" by (cases "variate api g d")
    have n: "nat (n - i) = Suc (nat (n - (i + 1)))" using True by simp
    have u: "sample_loop api i n g d out =
             sample_loop api (i + 1) n g' d' (out @ [put api v])"
      using True v by (subst sample_loop.simps) simp
    have "sample_loop api (i + 1) n g' d' (out @ [put api v]) =
          (out @ [put api v]) @ map (put api) (samples api (nat (n - (i + 1))) g' d')"
      using "1.IH" [OF True v [symmetric] refl] True by simp
    then show ?thesis using v by (simp add: u n)
  qed
qed

lemma length_samples: "length (samples api k g d) = k"
  by (induction k arbitrary: g d) (simp_all split: prod.splits)

text \<open>
  C10. Whatever was written to the output before, the function appends the same lines:
  the heading and the ten values that the generator seeded with the constant 12411 and
  the distribution built from 50 and 10 yield. Two runs, from any two earlier outputs,
  append the same twelve lines.
\<close>

theorem rand_from_uniform_dstrb_test_deterministic:
  "rand_from_uniform_dstrb_test api out1 =
     out1 @ ['''', ''Random number generation example (Normal Distribution): ''] @
     map (put api)
       (samples api 10 (mt19937 api 12411) (normal_distribution api 50 10)) \<and>
   length (samples api 10 (mt19937 api 12411) (normal_distribution api 50 10)) = 10 \<and>
   drop (length out1) (rand_from_uniform_dstrb_test api out1) =
     drop (length out2) (rand_from_uniform_dstrb_test api out2)"
proof -
  have r: "\<And>out. rand_from_uniform_dstrb_test api out =
     out @ ['''', ''Random number generation example (Normal Distribution): ''] @
     map (put api)
       (samples api 10 (mt19937 api 12411) (normal_distribution api 50 10))"
    by (simp add: rand_from_uniform_dstrb_test_def sample_loop_samples)
  show ?thesis by (simp only: r length_samples drop_append) simp
qed

theorem rand_from_uniform_dstrb_test_deterministic_witness:
  "rand_from_uniform_dstrb_test toy_api [] =
     ['''', ''Random number generation example (Normal Distribution): '',
      ''51'', ''51'', ''54'', ''53'', ''55'', ''56'', ''59'', ''58'', ''56'', ''53''] \<and>
   drop 1 (rand_from_uniform_dstrb_test toy_api [''x'']) =
     rand_from_uniform_dstrb_test toy_api []"
proof -
  have s: "samples toy_api 10 (mt19937 toy_api 12411) (normal_distribution toy_api 50 10) =
           [51, 51, 54, 53, 55, 56, 59, 58, 56, 53]"
    by code_simp
  have p: "map (put toy_api) [51, 51, 54, 53, 55, 56, 59, 58, 56, 53] =
           [''51'', ''51'', ''54'', ''53'', ''55'', ''56'', ''59'', ''58'', ''56'', ''53'']"
    by (simp add: toy_api_def two_digits_def)
  have "rand_from_uniform_dstrb_test toy_api [] =
     [] @ ['''', ''Random number generation example (Normal Distribution): ''] @
     map (put toy_api)
       (samples toy_api 10 (mt19937 toy_api 12411) (normal_distribution toy_api 50 10))"
    using rand_from_uniform_dstrb_test_deterministic [of toy_api "[]" "[]"]
    by (rule conjunct1)
  then have a: "rand_from_uniform_dstrb_test toy_api [] =
     ['''', ''Random number generation example (Normal Distribution): '',
      ''51'', ''51'', ''54'', ''53'', ''55'', ''56'', ''59'', ''58'', ''56'', ''53'']"
    by (simp only: s p append.simps)
  have "drop (length [''x'']) (rand_from_uniform_dstrb_test toy_api [''x'']) =
        drop (length ([] :: string list)) (rand_from_uniform_dstrb_test toy_api [])"
    using rand_from_uniform_dstrb_test_deterministic [of toy_api "[''x'']" "[]"]
    by blast
  then have b: "drop 1 (rand_from_uniform_dstrb_test toy_api [''x'']) =
                rand_from_uniform_dstrb_test toy_api []"
    by (simp only: list.size drop_0) simp
  show ?thesis using a b by (rule conjI)
qed

end
